theory Spec2Isabelle
  imports Complex_Main "HOL-Library.Multiset"
begin

section \<open>Conventions of the embedding\<close>

text \<open>
  Python integers are \<^typ>\<open>int\<close>; image dimensions, which PIL and numpy keep non-negative,
  are \<^typ>\<open>nat\<close>. An exception of the source is a value \<open>Inl e\<close> of a sum type, a normal
  return is \<open>Inr v\<close>.

  The coordinate conversions of \<open>utils/geo_utils.py\<close> and the report of the critical spots
  compute with Python floats. They are embedded in IEEE binary64 arithmetic (next
  section): every operation rounds its exact result to the nearest double,
  ties to even. The score arrays (\<open>np.float32\<close>) and the distance transform are embedded as
  \<^typ>\<open>real\<close>: every comparison, threshold and constant of the sources is kept, the rounding
  of these array operations is not part of the model.
\<close>

datatype failure =
    ZeroDivisionError
  | ValueError
  | OverflowError
  | LibraryUnspecified

text \<open>
  \<open>int(x)\<close> of Python on a finite float truncates toward zero.
\<close>

definition py_int :: "real \<Rightarrow> int" where
  "py_int x = (if 0 \<le> x then \<lfloor>x\<rfloor> else \<lceil>x\<rceil>)"

text \<open>
  Rounding a real to the nearest integer, a tie going to the even neighbour.
\<close>

definition round_half_even :: "real \<Rightarrow> int" where
  "round_half_even r =
     (let f = \<lfloor>r\<rfloor>; d = r - of_int f
      in if d < 1 / 2 then f
         else if 1 / 2 < d then f + 1
         else if even f then f else f + 1)"

section \<open>Binary64 arithmetic\<close>

text \<open>
  A finite double is an integer multiple of \<open>2^e\<close> with a significand of at most 53 bits,
  where \<open>e\<close> is at least \<open>-1074\<close> (gradual underflow). \<open>ulp_exp x\<close> is the exponent of the
  spacing of the doubles around the real \<open>x\<close>, and \<open>round_f64 x\<close> the double nearest to \<open>x\<close>,
  ties to even, before the overflow test.
\<close>

definition ulp_exp :: "real \<Rightarrow> int" where
  "ulp_exp x = max \<lfloor>log 2 \<bar>x\<bar>\<rfloor> (- 1022) - 52"

definition round_f64 :: "real \<Rightarrow> real" where
  "round_f64 x =
     (if x = 0 then 0
      else of_int (round_half_even (x / 2 powr of_int (ulp_exp x))) * 2 powr of_int (ulp_exp x))"

text \<open>
  The values of a float: the finite ones by their real value (the sign of a zero is not
  tracked: no operation below observes it), the two infinities and NaN.
\<close>

datatype double = Fin real | PInf | MInf | NaN

text \<open>The largest finite double, \<open>(2 - 2^-52) * 2^1023\<close>.\<close>

definition max_f64 :: real where
  "max_f64 = 2 ^ 1024 - 2 ^ 971"

text \<open>
  The result of an operation whose exact value is \<open>x\<close>: the nearest double, an infinity
  when that exceeds the largest finite double.
\<close>

definition fl :: "real \<Rightarrow> double" where
  "fl x =
     (let r = round_f64 x
      in if max_f64 < r then PInf else if r < - max_f64 then MInf else Fin r)"

fun is_neg :: "double \<Rightarrow> bool" where
  "is_neg (Fin x) = (x < 0)"
| "is_neg MInf = True"
| "is_neg PInf = False"
| "is_neg NaN = False"

fun fneg :: "double \<Rightarrow> double" where
  "fneg (Fin x) = Fin (- x)"
| "fneg PInf = MInf"
| "fneg MInf = PInf"
| "fneg NaN = NaN"

text \<open>\<open>a + b\<close>, \<open>a - b\<close> and \<open>a * b\<close> on floats; none of them raises.\<close>

fun fadd :: "double \<Rightarrow> double \<Rightarrow> double" where
  "fadd (Fin x) (Fin y) = fl (x + y)"
| "fadd NaN b = NaN"
| "fadd a NaN = NaN"
| "fadd PInf MInf = NaN"
| "fadd MInf PInf = NaN"
| "fadd (Fin x) b = b"
| "fadd a b = a"

definition fsub :: "double \<Rightarrow> double \<Rightarrow> double" where
  "fsub a b = fadd a (fneg b)"

fun fmul :: "double \<Rightarrow> double \<Rightarrow> double" where
  "fmul (Fin x) (Fin y) = fl (x * y)"
| "fmul NaN b = NaN"
| "fmul a NaN = NaN"
| "fmul a b =
     (if a = Fin 0 \<or> b = Fin 0 then NaN
      else if is_neg a = is_neg b then PInf else MInf)"

text \<open>
  \<open>a / b\<close> on Python floats raises \<open>ZeroDivisionError\<close> when \<open>b\<close> is zero, whatever \<open>a\<close> is;
  otherwise it is the IEEE quotient.
\<close>

fun ieee_div :: "double \<Rightarrow> double \<Rightarrow> double" where
  "ieee_div (Fin x) (Fin y) = fl (x / y)"
| "ieee_div NaN b = NaN"
| "ieee_div a NaN = NaN"
| "ieee_div (Fin x) b = Fin 0"
| "ieee_div a (Fin y) = (if is_neg a = (y < 0) then PInf else MInf)"
| "ieee_div a b = NaN"

definition float_truediv :: "double \<Rightarrow> double \<Rightarrow> failure + double" where
  "float_truediv a b = (if b = Fin 0 then Inl ZeroDivisionError else Inr (ieee_div a b))"

text \<open>
  An \<open>int\<close> operand of a float operation is converted to the nearest double first;
  the conversion raises \<open>OverflowError\<close> when the integer is too large. \<open>float_mul_nat a n\<close>
  is \<open>a * n\<close> (and \<open>n * a\<close>) for a float \<open>a\<close> and a non-negative integer \<open>n\<close>.
\<close>

definition float_of_nat :: "nat \<Rightarrow> failure + double" where
  "float_of_nat n =
     (case fl (real n) of Fin r \<Rightarrow> Inr (Fin r) | _ \<Rightarrow> Inl OverflowError)"

definition float_mul_nat :: "double \<Rightarrow> nat \<Rightarrow> failure + double" where
  "float_mul_nat a n =
     (case float_of_nat n of Inl e \<Rightarrow> Inl e | Inr d \<Rightarrow> Inr (fmul a d))"

text \<open>
  \<open>int(x)\<close> on a float: truncation, \<open>ValueError\<close> on NaN, \<open>OverflowError\<close> on an infinity.
\<close>

fun int_of_float :: "double \<Rightarrow> failure + int" where
  "int_of_float (Fin x) = Inr (py_int x)"
| "int_of_float NaN = Inl ValueError"
| "int_of_float a = Inl OverflowError"

text \<open>
  A numeric argument that the callers pass as an \<open>int\<close> or as a \<open>float\<close>, and \<open>a / n\<close> for
  such an argument and a non-negative integer \<open>n\<close>: the quotient of two integers is the
  double nearest to the exact quotient, a float is divided by the converted integer.
\<close>

datatype py_num = PyInt int | PyFloat double

definition truediv :: "py_num \<Rightarrow> nat \<Rightarrow> failure + double" where
  "truediv a n =
     (case a of
        PyInt k \<Rightarrow>
          if n = 0 then Inl ZeroDivisionError
          else (case fl (of_int k / real n) of
                  Fin r \<Rightarrow> Inr (Fin r)
                | _ \<Rightarrow> Inl OverflowError)
      | PyFloat x \<Rightarrow>
          (case float_of_nat n of
             Inl e \<Rightarrow> Inl e
           | Inr d \<Rightarrow> float_truediv x d))"

text \<open>
  \<open>round(x, ndigits)\<close> on a finite float \<open>x\<close> rounds the exact value of \<open>x\<close> to \<open>ndigits\<close>
  decimals, a tie going to the even neighbour, and returns the double nearest to that
  decimal. An infinity or NaN is returned unchanged.
\<close>

definition py_round :: "real \<Rightarrow> nat \<Rightarrow> real" where
  "py_round x ndigits =
     round_f64 (of_int (round_half_even (x * 10 ^ ndigits)) / 10 ^ ndigits)"

fun round_float :: "double \<Rightarrow> nat \<Rightarrow> double" where
  "round_float (Fin x) ndigits = Fin (py_round x ndigits)"
| "round_float a ndigits = a"

section \<open>utils/geo\_utils.py\<close>

text \<open>
  \<open>latlon_to_pixel\<close>. The arguments are finite floats, given by their values. The two
  normalising divisions raise on a bounding box whose extent is zero; the scaled
  coordinates are cut to integers with \<open>int\<close>, which raises on an infinity or NaN.
\<close>

definition latlon_to_pixel ::
  "real \<Rightarrow> real \<Rightarrow> real \<Rightarrow> real \<Rightarrow> real \<Rightarrow> real \<Rightarrow> nat \<Rightarrow> nat \<Rightarrow> failure + (int \<times> int)" where
  "latlon_to_pixel lat lon min_lat max_lat min_lon max_lon img_height img_width =
     (case float_truediv (fsub (Fin lon) (Fin min_lon)) (fsub (Fin max_lon) (Fin min_lon)) of
        Inl e \<Rightarrow> Inl e
      | Inr x_norm \<Rightarrow>
     (case float_truediv (fsub (Fin max_lat) (Fin lat)) (fsub (Fin max_lat) (Fin min_lat)) of
        Inl e \<Rightarrow> Inl e
      | Inr y_norm \<Rightarrow>
     (case float_mul_nat x_norm img_width of
        Inl e \<Rightarrow> Inl e
      | Inr x_scaled \<Rightarrow>
     (case int_of_float x_scaled of
        Inl e \<Rightarrow> Inl e
      | Inr x_pixel \<Rightarrow>
     (case float_mul_nat y_norm img_height of
        Inl e \<Rightarrow> Inl e
      | Inr y_scaled \<Rightarrow>
     (case int_of_float y_scaled of
        Inl e \<Rightarrow> Inl e
      | Inr y_pixel \<Rightarrow> Inr (x_pixel, y_pixel)))))))"

text \<open>
  \<open>pixel_to_latlon\<close>: the pixel coordinates are integers (a projected pixel) or floats (the
  caller in \<open>core/visualizer.py\<close> passes component centroids). The result is the pair
  \<open>(lat, lon)\<close>.
\<close>

definition pixel_to_latlon ::
  "py_num \<Rightarrow> py_num \<Rightarrow> real \<Rightarrow> real \<Rightarrow> real \<Rightarrow> real \<Rightarrow> nat \<Rightarrow> nat
     \<Rightarrow> failure + (double \<times> double)" where
  "pixel_to_latlon x_pixel y_pixel min_lat max_lat min_lon max_lon img_height img_width =
     (case truediv x_pixel img_width of
        Inl e \<Rightarrow> Inl e
      | Inr x_norm \<Rightarrow>
     (case truediv y_pixel img_height of
        Inl e \<Rightarrow> Inl e
      | Inr y_norm \<Rightarrow>
          let lon = fadd (Fin min_lon) (fmul x_norm (fsub (Fin max_lon) (Fin min_lon)));
              lat = fsub (Fin max_lat) (fmul y_norm (fsub (Fin max_lat) (Fin min_lat)))
          in Inr (lat, lon)))"

text \<open>
  The projection as the specification words it: the nearest integer to the scaled
  normalised coordinate. It is only compared with \<^const>\<open>latlon_to_pixel\<close>.
\<close>

definition project_nearest ::
  "real \<Rightarrow> real \<Rightarrow> real \<Rightarrow> real \<Rightarrow> real \<Rightarrow> real \<Rightarrow> nat \<Rightarrow> nat \<Rightarrow> int \<times> int" where
  "project_nearest lat lon min_lat max_lat min_lon max_lon img_height img_width =
     (round ((lon - min_lon) / (max_lon - min_lon) * real img_width),
      round ((max_lat - lat) / (max_lat - min_lat) * real img_height))"

section \<open>config/settings.py\<close>

definition PEDESTRIAN_PRIORITY_TYPES :: "string list" where
  "PEDESTRIAN_PRIORITY_TYPES =
     [''footway'', ''pedestrian'', ''living_street'', ''path'', ''steps'']"

definition LOW_TRAFFIC_TYPES :: "string list" where
  "LOW_TRAFFIC_TYPES = [''residential'', ''tertiary'', ''unclassified'', ''service'']"

definition MEDIUM_TRAFFIC_TYPES :: "string list" where
  "MEDIUM_TRAFFIC_TYPES = [''secondary'', ''secondary_link'']"

definition HIGH_TRAFFIC_TYPES :: "string list" where
  "HIGH_TRAFFIC_TYPES =
     [''primary'', ''primary_link'', ''trunk'', ''trunk_link'', ''motorway'', ''motorway_link'']"

definition STREET_BUFFER_METERS :: real where
  "STREET_BUFFER_METERS = 10"

definition SCORE_SIDEWALK :: real where "SCORE_SIDEWALK = 35"
definition SCORE_BUILDING :: real where "SCORE_BUILDING = 25"
definition SCORE_SUN :: real where "SCORE_SUN = 20"
definition SCORE_AMENITY :: real where "SCORE_AMENITY = 10"
definition SCORE_GAP :: real where "SCORE_GAP = 10"

definition PRIORITY_CRITICAL_MIN :: real where "PRIORITY_CRITICAL_MIN = 80"
definition PRIORITY_HIGH_MIN :: real where "PRIORITY_HIGH_MIN = 60"
definition PRIORITY_MEDIUM_MIN :: real where "PRIORITY_MEDIUM_MIN = 40"

section \<open>core/transformer.py: street classification\<close>

text \<open>
  The value of a row's \<open>highway\<close> column: a string, a list of strings, or anything else
  (\<open>None\<close>, NaN). A row without the column has \<open>highway = None\<close>. The other columns of
  the row are the payload \<open>geometry\<close>.
\<close>

datatype highway_value =
    HighwayStr string
  | HighwayList "string list"
  | HighwayOther

record 'g street_row =
  highway :: "highway_value option"
  geometry :: 'g

text \<open>
  \<open>_get_highway_type\<close>: the tag as a string, the first element of a list; \<open>None\<close> stands
  for every value that is equal to no tag string.
\<close>

definition get_highway_type :: "'g street_row \<Rightarrow> string option" where
  "get_highway_type row =
     (case highway row of
        None \<Rightarrow> None
      | Some (HighwayStr s) \<Rightarrow> Some s
      | Some (HighwayList l) \<Rightarrow> (case l of [] \<Rightarrow> None | s # _ \<Rightarrow> Some s)
      | Some HighwayOther \<Rightarrow> None)"

definition py_in :: "string option \<Rightarrow> string list \<Rightarrow> bool" where
  "py_in highway_type types =
     (case highway_type of None \<Rightarrow> False | Some s \<Rightarrow> s \<in> set types)"

record 'g street_dict =
  pedestrian :: "'g street_row list"
  low_traffic :: "'g street_row list"
  medium_traffic :: "'g street_row list"
  high_traffic :: "'g street_row list"

definition empty_street_dict :: "'g street_dict" where
  "empty_street_dict =
     \<lparr>pedestrian = [], low_traffic = [], medium_traffic = [], high_traffic = []\<rparr>"

text \<open>
  The loop of \<open>filter_streets_by_type\<close> over the rows; the four lists it appends to are
  the fields of the accumulator.
\<close>

fun categorize :: "'g street_row list \<Rightarrow> 'g street_dict \<Rightarrow> 'g street_dict" where
  "categorize [] acc = acc"
| "categorize (row # rows) acc =
     (let highway_type = get_highway_type row
      in categorize rows
           (if py_in highway_type PEDESTRIAN_PRIORITY_TYPES
              then acc\<lparr>pedestrian := pedestrian acc @ [row]\<rparr>
            else if py_in highway_type LOW_TRAFFIC_TYPES
              then acc\<lparr>low_traffic := low_traffic acc @ [row]\<rparr>
            else if py_in highway_type MEDIUM_TRAFFIC_TYPES
              then acc\<lparr>medium_traffic := medium_traffic acc @ [row]\<rparr>
            else if py_in highway_type HIGH_TRAFFIC_TYPES
              then acc\<lparr>high_traffic := high_traffic acc @ [row]\<rparr>
            else acc\<lparr>low_traffic := low_traffic acc @ [row]\<rparr>))"

definition filter_streets_by_type :: "'g street_row list \<Rightarrow> 'g street_dict" where
  "filter_streets_by_type streets_gdf =
     (if length streets_gdf = 0 then empty_street_dict
      else categorize streets_gdf empty_street_dict)"

section \<open>Dense arrays\<close>

text \<open>
  A two-dimensional numpy array: its shape and its cells, \<open>cell a y x\<close> being \<open>a[y, x]\<close>
  (row, column). Only the cells inside the shape carry meaning.
\<close>

record 'a ndarray =
  nrows :: nat
  ncols :: nat
  cell :: "nat \<Rightarrow> nat \<Rightarrow> 'a"

definition np_full :: "nat \<Rightarrow> nat \<Rightarrow> 'a \<Rightarrow> 'a ndarray" where
  "np_full h w v = \<lparr>nrows = h, ncols = w, cell = \<lambda>y x. v\<rparr>"

definition pixels :: "nat \<Rightarrow> nat \<Rightarrow> (nat \<times> nat) list" where
  "pixels h w = List.product [0..<h] [0..<w]"

definition np_any :: "bool ndarray \<Rightarrow> bool" where
  "np_any a = list_ex (\<lambda>(y, x). cell a y x) (pixels (nrows a) (ncols a))"

definition np_not :: "bool ndarray \<Rightarrow> bool ndarray" where
  "np_not a = \<lparr>nrows = nrows a, ncols = ncols a, cell = \<lambda>y x. \<not> cell a y x\<rparr>"

text \<open>Elementwise operations on arrays of one shape (the shape of the first operand).\<close>

definition np_map :: "('a \<Rightarrow> 'b) \<Rightarrow> 'a ndarray \<Rightarrow> 'b ndarray" where
  "np_map f a = \<lparr>nrows = nrows a, ncols = ncols a, cell = \<lambda>y x. f (cell a y x)\<rparr>"

definition np_map2 :: "('a \<Rightarrow> 'b \<Rightarrow> 'c) \<Rightarrow> 'a ndarray \<Rightarrow> 'b ndarray \<Rightarrow> 'c ndarray" where
  "np_map2 f a b =
     \<lparr>nrows = nrows a, ncols = ncols a, cell = \<lambda>y x. f (cell a y x) (cell b y x)\<rparr>"

text \<open>\<open>score[cond] = v\<close>: the masked assignment.\<close>

definition assign_where :: "bool ndarray \<Rightarrow> 'a \<Rightarrow> 'a ndarray \<Rightarrow> 'a ndarray" where
  "assign_where cond v score =
     \<lparr>nrows = nrows score, ncols = ncols score,
      cell = \<lambda>y x. if cell cond y x then v else cell score y x\<rparr>"

section \<open>core/mask\_generator.py\<close>

text \<open>
  Geometries as shapely has them; a polygon is its exterior ring, a list of
  \<open>(lon, lat)\<close> vertices, which is all the rasterisation reads.
\<close>

datatype geom =
    Point real real
  | LineString "(real \<times> real) list"
  | Polygon "(real \<times> real) list"
  | MultiPolygon "geom list"
  | OtherGeometry

text \<open>
  The three library operations the mask generator calls are parameters of the model:
  shapely's \<open>buffer\<close> in degrees, the reprojection to UTM with a buffer in meters and back
  (geopandas), and PIL's polygon fill, given as the set of pixels \<open>(row, column)\<close> a
  polygon with the given integer vertices covers.
\<close>

record libs =
  shapely_buffer :: "real \<Rightarrow> geom \<Rightarrow> geom"
  utm_buffer :: "real \<Rightarrow> geom \<Rightarrow> geom"
  pil_polygon :: "(int \<times> int) list \<Rightarrow> nat \<Rightarrow> nat \<Rightarrow> bool"

type_synonym bounds = "real \<times> real \<times> real \<times> real"

text \<open>The list comprehension projecting the exterior ring vertex by vertex.\<close>

fun project_ring :: "bounds \<Rightarrow> nat \<Rightarrow> nat \<Rightarrow> (real \<times> real) list \<Rightarrow> failure + (int \<times> int) list" where
  "project_ring b img_height img_width [] = Inr []"
| "project_ring (min_lon, min_lat, max_lon, max_lat) img_height img_width ((lon, lat) # cs) =
     (case latlon_to_pixel lat lon min_lat max_lat min_lon max_lon img_height img_width of
        Inl e \<Rightarrow> Inl e
      | Inr p \<Rightarrow>
          (case project_ring (min_lon, min_lat, max_lon, max_lat) img_height img_width cs of
             Inl e \<Rightarrow> Inl e
           | Inr ps \<Rightarrow> Inr (p # ps)))"

text \<open>
  The inner loop over the polygons of one geometry. The state is the mask image and the
  count of polygons drawn.
\<close>

fun draw_polygons ::
  "libs \<Rightarrow> bounds \<Rightarrow> geom list \<Rightarrow> bool ndarray \<times> nat \<Rightarrow> failure + (bool ndarray \<times> nat)" where
  "draw_polygons L b [] st = Inr st"
| "draw_polygons L b (poly # polys) (mask_img, drawn) =
     (case poly of
        Polygon exterior_coords \<Rightarrow>
          (case project_ring b (nrows mask_img) (ncols mask_img) exterior_coords of
             Inl e \<Rightarrow> Inl e
           | Inr pixel_coords \<Rightarrow>
               if 3 \<le> length pixel_coords
               then draw_polygons L b polys
                      (np_map2 (\<or>) mask_img
                         \<lparr>nrows = nrows mask_img, ncols = ncols mask_img,
                          cell = pil_polygon L pixel_coords\<rparr>,
                       drawn + 1)
               else draw_polygons L b polys (mask_img, drawn))
      | _ \<Rightarrow> draw_polygons L b polys (mask_img, drawn))"

text \<open>The outer loop over the rows of the GeoDataFrame.\<close>

fun draw_geometries ::
  "libs \<Rightarrow> bounds \<Rightarrow> geom list \<Rightarrow> bool ndarray \<times> nat \<Rightarrow> failure + (bool ndarray \<times> nat)" where
  "draw_geometries L b [] st = Inr st"
| "draw_geometries L b (g # gs) st =
     (case g of
        MultiPolygon parts \<Rightarrow>
          (case draw_polygons L b parts st of
             Inl e \<Rightarrow> Inl e | Inr st' \<Rightarrow> draw_geometries L b gs st')
      | Polygon ring \<Rightarrow>
          (case draw_polygons L b [g] st of
             Inl e \<Rightarrow> Inl e | Inr st' \<Rightarrow> draw_geometries L b gs st')
      | LineString line \<Rightarrow>
          (case draw_polygons L b [shapely_buffer L (5 / 100000) g] st of
             Inl e \<Rightarrow> Inl e | Inr st' \<Rightarrow> draw_geometries L b gs st')
      | _ \<Rightarrow> draw_geometries L b gs st)"

text \<open>
  \<open>create_mask\<close>; \<open>image_size\<close> is \<open>satellite_img.size\<close>, the pair \<open>(width, height)\<close>.
\<close>

definition create_mask ::
  "libs \<Rightarrow> geom list \<Rightarrow> nat \<times> nat \<Rightarrow> bounds \<Rightarrow> failure + (bool ndarray \<times> nat)" where
  "create_mask L geometries_gdf image_size b =
     (if length geometries_gdf = 0
      then (let (img_width, img_height) = image_size
            in Inr (np_full img_height img_width False, 0))
      else (let (img_width, img_height) = image_size
            in draw_geometries L b geometries_gdf (np_full img_height img_width False, 0)))"

definition create_street_mask ::
  "libs \<Rightarrow> geom list \<Rightarrow> nat \<times> nat \<Rightarrow> bounds \<Rightarrow> real \<Rightarrow> failure + (bool ndarray \<times> nat)" where
  "create_street_mask L streets_gdf image_size b buffer_m =
     (if length streets_gdf = 0
      then (let (img_width, img_height) = image_size
            in Inr (np_full img_height img_width False, 0))
      else (let streets_buffered = map (utm_buffer L buffer_m) streets_gdf
            in create_mask L streets_buffered image_size b))"

section \<open>core/priority\_calculator.py\<close>

subsection \<open>The distance transform of scipy\<close>

text \<open>
  \<open>scipy.ndimage.distance_transform_edt\<close> replaces each true (foreground) element of its
  input by the Euclidean distance to the nearest false (background) element; background
  elements become 0. The library does not say what the result is when the input has no
  background element: the model returns \<open>None\<close> there, and both callers guard against it.
\<close>

definition euclid :: "nat \<times> nat \<Rightarrow> nat \<times> nat \<Rightarrow> real" where
  "euclid p q =
     sqrt ((real_of_int (int (fst p) - int (fst q)))\<^sup>2 +
           (real_of_int (int (snd p) - int (snd q)))\<^sup>2)"

definition background :: "bool ndarray \<Rightarrow> (nat \<times> nat) list" where
  "background inp = filter (\<lambda>(y, x). \<not> cell inp y x) (pixels (nrows inp) (ncols inp))"

definition distance_transform_edt :: "bool ndarray \<Rightarrow> real ndarray option" where
  "distance_transform_edt inp =
     (if background inp = [] then None
      else Some \<lparr>nrows = nrows inp, ncols = ncols inp,
                 cell = \<lambda>y x. if cell inp y x
                               then Min (set (map (euclid (y, x)) (background inp)))
                               else 0\<rparr>)"

subsection \<open>The four components\<close>

definition calculate_sidewalk_priority :: "bool ndarray \<Rightarrow> failure + real ndarray" where
  "calculate_sidewalk_priority sidewalk_mask =
     (if \<not> np_any sidewalk_mask
      then Inr (np_full (nrows sidewalk_mask) (ncols sidewalk_mask) 0)
      else
        case distance_transform_edt (np_not sidewalk_mask) of
          None \<Rightarrow> Inl LibraryUnspecified
        | Some distance_px \<Rightarrow>
            let score = np_full (nrows distance_px) (ncols distance_px) 0;
                score = assign_where (np_map (\<lambda>d. d \<le> 20) distance_px) 35 score;
                score = assign_where (np_map (\<lambda>d. 20 < d \<and> d \<le> 50) distance_px) 20 score;
                score = assign_where (np_map (\<lambda>d. 50 < d) distance_px) 5 score
            in Inr score)"

definition calculate_building_priority :: "bool ndarray \<Rightarrow> failure + real ndarray" where
  "calculate_building_priority building_mask =
     (if \<not> np_any building_mask
      then Inr (np_full (nrows building_mask) (ncols building_mask) 0)
      else
        case distance_transform_edt (np_not building_mask) of
          None \<Rightarrow> Inl LibraryUnspecified
        | Some distance_px \<Rightarrow>
            let meters_per_pixel = 6 / 10;
                distance_m = np_map (\<lambda>d. d * meters_per_pixel) distance_px;
                score = np_full (nrows distance_m) (ncols distance_m) 0;
                score = assign_where (np_map (\<lambda>d. 5 \<le> d \<and> d \<le> 15) distance_m) 25 score;
                score = assign_where (np_map (\<lambda>d. 15 < d \<and> d \<le> 30) distance_m) 15 score;
                score = assign_where (np_map (\<lambda>d. 0 < d \<and> d < 5) distance_m) 10 score;
                score = assign_where (np_map (\<lambda>d. 30 < d) distance_m) 5 score
            in Inr score)"

definition calculate_sun_priority :: "real ndarray \<Rightarrow> real ndarray" where
  "calculate_sun_priority shadow_intensity =
     (let score = np_full (nrows shadow_intensity) (ncols shadow_intensity) 0;
          score = assign_where (np_map (\<lambda>s. s < 3 / 10) shadow_intensity) 20 score;
          score = assign_where (np_map (\<lambda>s. 3 / 10 \<le> s \<and> s < 6 / 10) shadow_intensity) 12 score;
          score = assign_where (np_map (\<lambda>s. 6 / 10 \<le> s) shadow_intensity) 5 score
      in score)"

subsection \<open>Amenity density\<close>

text \<open>
  The loop collecting the pixel coordinates of the amenities whose geometry is a point
  (\<open>point.y\<close> is the latitude, \<open>point.x\<close> the longitude).
\<close>

fun amenity_pixels :: "geom list \<Rightarrow> bounds \<Rightarrow> nat \<Rightarrow> nat \<Rightarrow> failure + (int \<times> int) list" where
  "amenity_pixels [] b img_height img_width = Inr []"
| "amenity_pixels (g # gs) (min_lon, min_lat, max_lon, max_lat) img_height img_width =
     (case g of
        Point x y \<Rightarrow>
          (case latlon_to_pixel y x min_lat max_lat min_lon max_lon img_height img_width of
             Inl e \<Rightarrow> Inl e
           | Inr p \<Rightarrow>
               (case amenity_pixels gs (min_lon, min_lat, max_lon, max_lat) img_height img_width of
                  Inl e \<Rightarrow> Inl e
                | Inr ps \<Rightarrow> Inr (p # ps)))
      | _ \<Rightarrow> amenity_pixels gs (min_lon, min_lat, max_lon, max_lat) img_height img_width)"

text \<open>
  The radius in pixels, \<open>int(sample_radius_m / meters_per_pixel)\<close> with the default
  \<open>sample_radius_m = 50\<close> (the only call leaves it at its default) and
  \<open>meters_per_pixel = 0.3\<close>.
\<close>

definition radius_px :: int where
  "radius_px = py_int (50 / (3 / 10))"

definition kernel_size :: int where
  "kernel_size = radius_px * 2 + 1"

definition kernel :: "real ndarray" where
  "kernel =
     \<lparr>nrows = nat kernel_size, ncols = nat kernel_size,
      cell = \<lambda>i j.
        let center = radius_px;
            dist = sqrt (real_of_int ((int i - center)\<^sup>2 + (int j - center)\<^sup>2))
        in if dist \<le> real_of_int radius_px
           then exp (- ((dist / real_of_int radius_px)\<^sup>2))
           else 0\<rparr>"

text \<open>
  A slice \<open>a[start:stop]\<close> along an axis of length \<open>n\<close>: a negative index counts from the
  end, both indices are clipped to \<open>0..n\<close>. The result is the first index of the slice and
  its length.
\<close>

definition slice_index :: "nat \<Rightarrow> int \<Rightarrow> nat" where
  "slice_index n i = (if i < 0 then nat (max 0 (i + int n)) else min (nat i) n)"

definition py_slice :: "nat \<Rightarrow> int \<Rightarrow> int \<Rightarrow> nat \<times> nat" where
  "py_slice n start stop =
     (let lo = slice_index n start; hi = slice_index n stop in (lo, hi - lo))"

text \<open>
  \<open>a[ys, xs] += k[kys, kxs]\<close>. numpy broadcasts the right-hand side to the shape of the
  left-hand slice: along each axis the lengths are equal or the right one is 1; otherwise
  it raises \<open>ValueError\<close>.
\<close>

definition iadd_slice ::
  "real ndarray \<Rightarrow> int \<times> int \<Rightarrow> int \<times> int \<Rightarrow> real ndarray \<Rightarrow> int \<times> int \<Rightarrow> int \<times> int
     \<Rightarrow> failure + real ndarray" where
  "iadd_slice a ys xs k kys kxs =
     (let (y0, ylen) = py_slice (nrows a) (fst ys) (snd ys);
          (x0, xlen) = py_slice (ncols a) (fst xs) (snd xs);
          (ky0, kylen) = py_slice (nrows k) (fst kys) (snd kys);
          (kx0, kxlen) = py_slice (ncols k) (fst kxs) (snd kxs)
      in if (kylen = ylen \<or> kylen = 1) \<and> (kxlen = xlen \<or> kxlen = 1)
         then Inr \<lparr>nrows = nrows a, ncols = ncols a,
                   cell = \<lambda>y x.
                     if y0 \<le> y \<and> y < y0 + ylen \<and> x0 \<le> x \<and> x < x0 + xlen
                     then cell a y x +
                          cell k (ky0 + (if kylen = 1 then 0 else y - y0))
                                 (kx0 + (if kxlen = 1 then 0 else x - x0))
                     else cell a y x\<rparr>
         else Inl ValueError)"

text \<open>The loop adding the kernel around each amenity pixel.\<close>

fun apply_kernel :: "(int \<times> int) list \<Rightarrow> real ndarray \<Rightarrow> failure + real ndarray" where
  "apply_kernel [] density_map = Inr density_map"
| "apply_kernel ((px_x, px_y) # rest) density_map =
     (let img_height = int (nrows density_map);
          img_width = int (ncols density_map);
          y_start = max 0 (px_y - radius_px);
          y_end = min img_height (px_y + radius_px + 1);
          x_start = max 0 (px_x - radius_px);
          x_end = min img_width (px_x + radius_px + 1);
          ky_start = radius_px - (px_y - y_start);
          ky_end = radius_px + (y_end - px_y);
          kx_start = radius_px - (px_x - x_start);
          kx_end = radius_px + (x_end - px_x)
      in case iadd_slice density_map (y_start, y_end) (x_start, x_end)
                kernel (ky_start, ky_end) (kx_start, kx_end) of
           Inl e \<Rightarrow> Inl e
         | Inr density_map' \<Rightarrow> apply_kernel rest density_map')"

text \<open>\<open>a.max()\<close>: numpy raises \<open>ValueError\<close> on an array without elements.\<close>

definition np_max :: "real ndarray \<Rightarrow> failure + real" where
  "np_max a =
     (let vs = map (\<lambda>(y, x). cell a y x) (pixels (nrows a) (ncols a))
      in if vs = [] then Inl ValueError else Inr (Max (set vs)))"

definition calculate_amenity_priority ::
  "geom list \<Rightarrow> bounds \<Rightarrow> nat \<times> nat \<Rightarrow> real \<Rightarrow> failure + real ndarray" where
  "calculate_amenity_priority amenities_gdf b image_size max_points =
     (let (img_width, img_height) = image_size
      in if length amenities_gdf = 0 then Inr (np_full img_height img_width 0)
         else
           case amenity_pixels amenities_gdf b img_height img_width of
             Inl e \<Rightarrow> Inl e
           | Inr pxs \<Rightarrow>
               if length pxs = 0 then Inr (np_full img_height img_width 0)
               else
                 (case apply_kernel pxs (np_full img_height img_width 0) of
                    Inl e \<Rightarrow> Inl e
                  | Inr density_map \<Rightarrow>
                      (case np_max density_map of
                         Inl e \<Rightarrow> Inl e
                       | Inr m \<Rightarrow>
                           let density_map =
                                 (if 0 < m then np_map (\<lambda>v. v / m) density_map
                                  else density_map)
                           in Inr (np_map (\<lambda>v. v * max_points) density_map))))"

subsection \<open>The total score and its bands\<close>

record calc_input =
  shadow_intensity :: "real ndarray"
  sidewalk_mask :: "bool ndarray"
  building_mask :: "bool ndarray"
  street_mask :: "bool ndarray"
  vegetation_mask :: "bool ndarray"
  amenities_gdf :: "geom list"
  geo_bounds :: bounds

record priority_result =
  enhanced_priority_score :: "real ndarray"
  critical_priority :: "bool ndarray"
  high_priority :: "bool ndarray"
  medium_priority :: "bool ndarray"
  low_priority :: "bool ndarray"
  sidewalk_component :: "real ndarray"
  building_component :: "real ndarray"
  sun_component :: "real ndarray"
  amenity_component :: "real ndarray"

text \<open>
  The arrays of one call share the shape of \<open>shadow_intensity\<close> (masks of another pixel
  grid are a precondition violation of the caller); the elementwise operations of
  \<open>calculate\<close> are modelled for that case.
\<close>

definition same_shape :: "calc_input \<Rightarrow> bool" where
  "same_shape inp =
     (let h = nrows (shadow_intensity inp); w = ncols (shadow_intensity inp)
      in nrows (sidewalk_mask inp) = h \<and> ncols (sidewalk_mask inp) = w \<and>
         nrows (building_mask inp) = h \<and> ncols (building_mask inp) = w \<and>
         nrows (street_mask inp) = h \<and> ncols (street_mask inp) = w \<and>
         nrows (vegetation_mask inp) = h \<and> ncols (vegetation_mask inp) = w)"

definition calculate :: "calc_input \<Rightarrow> failure + priority_result" where
  "calculate inp =
     (let img_height = nrows (shadow_intensity inp);
          img_width = ncols (shadow_intensity inp)
      in case calculate_sidewalk_priority (sidewalk_mask inp) of
           Inl e \<Rightarrow> Inl e
         | Inr sidewalk_score \<Rightarrow>
      (case calculate_building_priority (building_mask inp) of
           Inl e \<Rightarrow> Inl e
         | Inr building_score \<Rightarrow>
      (let sun_score = calculate_sun_priority (shadow_intensity inp)
       in case calculate_amenity_priority (amenities_gdf inp) (geo_bounds inp)
                 (img_width, img_height) SCORE_AMENITY of
           Inl e \<Rightarrow> Inl e
         | Inr amenity_score \<Rightarrow>
      (let gap_score = np_full img_height img_width 0;
           enhanced_priority =
             np_map2 (+) (np_map2 (+) (np_map2 (+) (np_map2 (+)
               sidewalk_score building_score) sun_score) amenity_score) gap_score;
           valid_area =
             np_map2 (\<and>) (np_map2 (\<and>) (np_not (building_mask inp))
               (np_not (street_mask inp))) (np_not (vegetation_mask inp));
           enhanced_priority =
             np_map2 (\<lambda>e v. e * (if v then 1 else 0)) enhanced_priority valid_area;
           critical_priority =
             np_map2 (\<and>) (np_map (\<lambda>e. PRIORITY_CRITICAL_MIN \<le> e) enhanced_priority)
               valid_area;
           high_priority =
             np_map2 (\<and>) (np_map2 (\<and>)
               (np_map (\<lambda>e. PRIORITY_HIGH_MIN \<le> e) enhanced_priority)
               (np_map (\<lambda>e. e < PRIORITY_CRITICAL_MIN) enhanced_priority)) valid_area;
           medium_priority =
             np_map2 (\<and>) (np_map2 (\<and>)
               (np_map (\<lambda>e. PRIORITY_MEDIUM_MIN \<le> e) enhanced_priority)
               (np_map (\<lambda>e. e < PRIORITY_HIGH_MIN) enhanced_priority)) valid_area;
           low_priority =
             np_map2 (\<and>) (np_map2 (\<and>)
               (np_map (\<lambda>e. 0 < e) enhanced_priority)
               (np_map (\<lambda>e. e < PRIORITY_MEDIUM_MIN) enhanced_priority)) valid_area
       in Inr \<lparr>enhanced_priority_score = enhanced_priority,
                critical_priority = critical_priority,
                high_priority = high_priority,
                medium_priority = medium_priority,
                low_priority = low_priority,
                sidewalk_component = sidewalk_score,
                building_component = building_score,
                sun_component = sun_score,
                amenity_component = amenity_score\<rparr>))))"

section \<open>core/visualizer.py: critical spots\<close>

text \<open>
  The fields of a spot dictionary (the two URL strings, formatted from the same latitude
  and longitude, are left out). The latitude, the longitude and the area are floats; the
  score is the finite float that \<open>round\<close> returns on the mean, given by its value.
\<close>

record spot =
  spot_id :: nat
  latitude :: double
  longitude :: double
  priority_score :: real
  area_m2 :: double
  area_pixels :: nat

text \<open>
  Two library calls enter as parameters. \<open>cv2.connectedComponentsWithStats\<close> with
  \<open>connectivity=8\<close> gives the list of the labelled components in label order: the element at
  position \<open>k\<close> holds the pixels \<open>(row, column)\<close> that carry label \<open>k + 1\<close> (label 0 is the
  background), which \<open>labels == i\<close> selects and \<open>stats[i, CC_STAT_AREA]\<close> counts, and the
  centroid \<open>(x, y)\<close> of the label, a finite float pair. \<open>np.mean\<close> on the scores of a
  component gives a float, finite for finite scores below the overflow range of their sum;
  it is neither the exact mean nor a fixed order of summation.
\<close>

type_synonym component = "(nat \<times> nat) list"

record cv_libs =
  connectedComponentsWithStats :: "bool ndarray \<Rightarrow> (component \<times> real \<times> real) list"
  np_mean :: "real list \<Rightarrow> real"

text \<open>
  The body of the loop for one label that passed the size test. The area is
  \<open>area_pixels * (0.6 * 0.6)\<close>, the literal \<open>0.6\<close> being the double nearest to \<open>6/10\<close>.
\<close>

definition make_spot ::
  "cv_libs \<Rightarrow> nat \<Rightarrow> component \<times> real \<times> real \<Rightarrow> real ndarray \<Rightarrow> bounds \<Rightarrow> nat \<Rightarrow> nat
     \<Rightarrow> failure + spot" where
  "make_spot L i labelled score_grid b img_height img_width =
     (let (min_lon, min_lat, max_lon, max_lat) = b;
          (cluster, centroid_x, centroid_y) = labelled;
          n_pixels = length cluster
      in case pixel_to_latlon (PyFloat (Fin centroid_x)) (PyFloat (Fin centroid_y))
                min_lat max_lat min_lon max_lon img_height img_width of
           Inl e \<Rightarrow> Inl e
         | Inr (lat, lon) \<Rightarrow>
             let avg_score = np_mean L (map (\<lambda>(y, x). cell score_grid y x) cluster)
             in case float_mul_nat (fmul (fl (6 / 10)) (fl (6 / 10))) n_pixels of
                  Inl e \<Rightarrow> Inl e
                | Inr area \<Rightarrow>
                    Inr \<lparr>spot_id = i,
                         latitude = round_float lat 8,
                         longitude = round_float lon 8,
                         priority_score = py_round avg_score 1,
                         area_m2 = round_float area 1,
                         area_pixels = n_pixels\<rparr>)"

text \<open>The loop over the labels \<open>1 .. num_labels - 1\<close>, appending to \<open>critical_spots\<close>.\<close>

fun collect_spots ::
  "cv_libs \<Rightarrow> nat \<Rightarrow> (component \<times> real \<times> real) list \<Rightarrow> real ndarray \<Rightarrow> bounds \<Rightarrow> nat \<Rightarrow> nat
     \<Rightarrow> spot list \<Rightarrow> failure + spot list" where
  "collect_spots L i [] score_grid b img_height img_width critical_spots = Inr critical_spots"
| "collect_spots L i (labelled # rest) score_grid b img_height img_width critical_spots =
     (if length (fst labelled) < 20
      then collect_spots L (i + 1) rest score_grid b img_height img_width critical_spots
      else
        case make_spot L i labelled score_grid b img_height img_width of
          Inl e \<Rightarrow> Inl e
        | Inr s \<Rightarrow>
            collect_spots L (i + 1) rest score_grid b img_height img_width
              (critical_spots @ [s]))"

text \<open>
  \<open>_extract_critical_spots\<close>. \<open>list.sort(key=..., reverse=True)\<close> is a stable sort in
  descending order of the key.
\<close>

definition extract_critical_spots ::
  "cv_libs \<Rightarrow> bool ndarray \<Rightarrow> real ndarray \<Rightarrow> bounds \<Rightarrow> nat \<Rightarrow> nat \<Rightarrow> failure + spot list" where
  "extract_critical_spots L critical score_grid b img_height img_width =
     (if \<not> np_any critical then Inr []
      else
        case collect_spots L 1 (connectedComponentsWithStats L critical) score_grid b
               img_height img_width [] of
          Inl e \<Rightarrow> Inl e
        | Inr critical_spots \<Rightarrow>
            Inr (sort_key (\<lambda>s. - priority_score s) critical_spots))"

section \<open>Auxiliary notions for the statements\<close>

text \<open>The tier the \<open>if\<close>/\<open>elif\<close> chain of \<open>filter_streets_by_type\<close> selects for a row.\<close>

datatype tier = Pedestrian | LowTraffic | MediumTraffic | HighTraffic

definition tier_of :: "'g street_row \<Rightarrow> tier" where
  "tier_of row =
     (let t = get_highway_type row
      in if py_in t PEDESTRIAN_PRIORITY_TYPES then Pedestrian
         else if py_in t LOW_TRAFFIC_TYPES then LowTraffic
         else if py_in t MEDIUM_TRAFFIC_TYPES then MediumTraffic
         else if py_in t HIGH_TRAFFIC_TYPES then HighTraffic
         else LowTraffic)"

text \<open>Two streets: a footway and one with a tag that is in none of the four lists.\<close>

definition demo_streets :: "nat street_row list" where
  "demo_streets =
     [\<lparr>highway = Some (HighwayStr ''footway''), geometry = 0\<rparr>,
      \<lparr>highway = Some (HighwayList [''bridleway'', ''primary'']), geometry = 1\<rparr>]"

text \<open>The true pixels of a mask inside its shape, and the Euclidean distance in pixels from a
  pixel to the nearest of them.\<close>

definition true_pixels :: "bool ndarray \<Rightarrow> (nat \<times> nat) list" where
  "true_pixels m = filter (\<lambda>(y, x). cell m y x) (pixels (nrows m) (ncols m))"

definition nearest_true :: "bool ndarray \<Rightarrow> nat \<times> nat \<Rightarrow> real" where
  "nearest_true m p = Min (set (map (euclid p) (true_pixels m)))"

text \<open>A 2 x 2 mask with one true pixel in the top-left corner, and an empty one.\<close>

definition demo_mask :: "bool ndarray" where
  "demo_mask = \<lparr>nrows = 2, ncols = 2, cell = \<lambda>y x. y = 0 \<and> x = 0\<rparr>"

definition empty_mask :: "bool ndarray" where
  "empty_mask = np_full 2 2 False"

text \<open>
  The falloff of the amenity kernel as a function of the distance in pixels: Gaussian up
  to the radius, zero beyond it.
\<close>

definition falloff :: "real \<Rightarrow> real" where
  "falloff d = (if d \<le> real_of_int radius_px then exp (- ((d / real_of_int radius_px)\<^sup>2)) else 0)"

text \<open>The validity predicate: not a building, not a street, not vegetation.\<close>

definition valid_pixel :: "calc_input \<Rightarrow> nat \<Rightarrow> nat \<Rightarrow> bool" where
  "valid_pixel inp y x \<longleftrightarrow>
     \<not> cell (building_mask inp) y x \<and> \<not> cell (street_mask inp) y x \<and>
     \<not> cell (vegetation_mask inp) y x"

text \<open>The pixels of a boolean band mask, as a set.\<close>

definition band_pixels :: "bool ndarray \<Rightarrow> (nat \<times> nat) set" where
  "band_pixels a = {(y, x). y < nrows a \<and> x < ncols a \<and> cell a y x}"

text \<open>
  A 2 x 2 scene: sun everywhere, a sidewalk pixel top-left, a building pixel bottom-right, no
  street, no vegetation, one amenity that projects to the top-left pixel.
\<close>

definition demo_input :: calc_input where
  "demo_input =
     \<lparr>shadow_intensity = np_full 2 2 (1 / 10),
      sidewalk_mask = \<lparr>nrows = 2, ncols = 2, cell = \<lambda>y x. y = 0 \<and> x = 0\<rparr>,
      building_mask = \<lparr>nrows = 2, ncols = 2, cell = \<lambda>y x. y = 1 \<and> x = 1\<rparr>,
      street_mask = np_full 2 2 False,
      vegetation_mask = np_full 2 2 False,
      amenities_gdf = [Point (1 / 2) (3 / 2)],
      geo_bounds = (0, 0, 2, 2)\<rparr>"


text \<open>
  The contract of the labelling used below: every labelled pixel is a true pixel of the
  mask that was labelled.
\<close>

definition labels_in_mask :: "cv_libs \<Rightarrow> bool ndarray \<Rightarrow> bool" where
  "labels_in_mask L m \<longleftrightarrow>
     (\<forall>(c, ctr) \<in> set (connectedComponentsWithStats L m).
        \<forall>(y, x) \<in> set c. y < nrows m \<and> x < ncols m \<and> cell m y x)"

text \<open>The pixel lists of the labelled components, in label order.\<close>

definition labelled_components :: "cv_libs \<Rightarrow> bool ndarray \<Rightarrow> component list" where
  "labelled_components L m = map fst (connectedComponentsWithStats L m)"

text \<open>
  What a spot reports about the labelled component it was made from: its label, its pixel
  count, the float product \<open>area_px * (0.6 * 0.6)\<close> rounded to one decimal and the mean that
  \<open>np.mean\<close> returned, rounded to one decimal.
\<close>

definition spot_matches :: "cv_libs \<Rightarrow> real ndarray \<Rightarrow> spot \<Rightarrow> nat \<times> component \<Rightarrow> bool" where
  "spot_matches L score_grid s ic \<longleftrightarrow>
     spot_id s = fst ic \<and>
     area_pixels s = length (snd ic) \<and>
     (\<exists>a. float_mul_nat (fmul (fl (6 / 10)) (fl (6 / 10))) (length (snd ic)) = Inr a \<and>
          area_m2 s = round_float a 1) \<and>
     priority_score s =
       py_round (np_mean L (map (\<lambda>(y, x). cell score_grid y x) (snd ic))) 1"

text \<open>The labelled components with at least 20 pixels, with their labels counted from \<open>i\<close>.\<close>

definition kept :: "nat \<Rightarrow> component list \<Rightarrow> (nat \<times> component) list" where
  "kept i labelled =
     filter (\<lambda>(j, c). 20 \<le> length c) (zip [i..<i + length labelled] labelled)"

text \<open>
  A 4 x 32 scene with two critical components: the first 21 pixels of row 0 (label 1,
  every score 85, centroid \<open>(10, 0)\<close>) and the 32 pixels of row 2 (label 2, every score 85
  but one 86, centroid \<open>(15.5, 2)\<close>). Every sum and quotient of these means is a small
  dyadic number, so that \<open>np.mean\<close> returns the exact means, 85 and 85.03125, in any order
  of summation and in single as in double precision.
\<close>

definition exact_mean :: "real list \<Rightarrow> real" where
  "exact_mean vs = sum_list vs / real (length vs)"

definition cx_mask :: "bool ndarray" where
  "cx_mask = \<lparr>nrows = 4, ncols = 32, cell = \<lambda>y x. (y = 0 \<and> x < 21) \<or> y = 2\<rparr>"

definition cx_libs :: cv_libs where
  "cx_libs =
     \<lparr>connectedComponentsWithStats =
        (\<lambda>m. [(map (Pair 0) [0..<21], 10, 0), (map (Pair 2) [0..<32], 31 / 2, 2)]),
      np_mean = exact_mean\<rparr>"

definition cx_scores :: "real ndarray" where
  "cx_scores = \<lparr>nrows = 4, ncols = 32,
     cell = \<lambda>y x. if y = 2 \<and> x = 31 then 86 else 85\<rparr>"

text \<open>
  The spots of that scene: the first reports the area 7.6 (the double nearest to it), the
  second 11.5; both report the score 85.0.
\<close>

definition cx_spots :: "spot list" where
  "cx_spots =
     [\<lparr>spot_id = 1, latitude = Fin 4, longitude = Fin 10, priority_score = 85,
         area_m2 = Fin (4278419646001971 / 2 ^ 49), area_pixels = 21\<rparr>,
      \<lparr>spot_id = 2, latitude = Fin 2, longitude = Fin (31 / 2), priority_score = 85,
         area_m2 = Fin (23 / 2), area_pixels = 32\<rparr>]"

text \<open>An amenity point inside the bounding box (any other geometry is skipped by the code).\<close>

definition in_bounds :: "bounds \<Rightarrow> geom \<Rightarrow> bool" where
  "in_bounds b g =
     (case b of (min_lon, min_lat, max_lon, max_lat) \<Rightarrow>
        (case g of
           Point x y \<Rightarrow> min_lon \<le> x \<and> x \<le> max_lon \<and> min_lat \<le> y \<and> y \<le> max_lat
         | _ \<Rightarrow> True))"

text \<open>
  The spacing of the doubles around \<open>x\<close>, the relative rounding error bound \<open>2^-53\<close> and the
  absolute one in the subnormal range, \<open>2^-1075\<close>.
\<close>

definition ulp :: "real \<Rightarrow> real" where
  "ulp x = 2 powr of_int (ulp_exp x)"

definition eps :: real where
  "eps = 1 / 2 ^ 53"

definition eta :: real where
  "eta = 1 / 2 ^ 1075"

text \<open>
  The range of bounding boxes for which the conversions are analysed: both edges of
  magnitude at most \<open>2^400\<close> and an extent of at least \<open>2^-400\<close> (degrees of latitude and
  longitude are far inside).
\<close>

definition geo_range :: "real \<Rightarrow> real \<Rightarrow> bool" where
  "geo_range lo hi \<longleftrightarrow> - (2 ^ 400) \<le> lo \<and> hi \<le> 2 ^ 400 \<and> 1 / 2 ^ 400 \<le> hi - lo"


section \<open>Facts about truncation\<close>

lemma py_int_nonneg: "0 \<le> x \<Longrightarrow> py_int x = \<lfloor>x\<rfloor>"
  by (simp add: py_int_def)

lemma py_int_nonpos: "x \<le> 0 \<Longrightarrow> py_int x = \<lceil>x\<rceil>"
  by (cases "x = 0") (simp_all add: py_int_def)

lemma py_int_close: "\<bar>x - of_int (py_int x)\<bar> < 1"
proof (cases "0 \<le> x")
  case True
  then show ?thesis
    unfolding py_int_def by simp linarith
next
  case False
  then show ?thesis
    unfolding py_int_def by simp linarith
qed

section \<open>Facts about binary64 rounding\<close>

lemma rhe_of_int [simp]: "round_half_even (of_int k) = k"
  by (simp add: round_half_even_def)

lemma rhe_cases:
  obtains (down) "r - of_int \<lfloor>r\<rfloor> < 1 / 2" "round_half_even r = \<lfloor>r\<rfloor>"
  | (up) "1 / 2 < r - of_int \<lfloor>r\<rfloor>" "round_half_even r = \<lfloor>r\<rfloor> + 1"
  | (tie_even) "r - of_int \<lfloor>r\<rfloor> = 1 / 2" "even \<lfloor>r\<rfloor>" "round_half_even r = \<lfloor>r\<rfloor>"
  | (tie_odd) "r - of_int \<lfloor>r\<rfloor> = 1 / 2" "odd \<lfloor>r\<rfloor>" "round_half_even r = \<lfloor>r\<rfloor> + 1"
proof -
  consider "r - of_int \<lfloor>r\<rfloor> < 1 / 2" | "1 / 2 < r - of_int \<lfloor>r\<rfloor>"
    | "r - of_int \<lfloor>r\<rfloor> = 1 / 2" "even \<lfloor>r\<rfloor>" | "r - of_int \<lfloor>r\<rfloor> = 1 / 2" "odd \<lfloor>r\<rfloor>"
    by fastforce
  then show thesis
  proof cases
    case 1
    then show ?thesis using down by (simp add: round_half_even_def Let_def)
  next
    case 2
    then show ?thesis using up by (simp add: round_half_even_def Let_def)
  next
    case 3
    then show ?thesis using tie_even by (simp add: round_half_even_def Let_def)
  next
    case 4
    then show ?thesis using tie_odd by (simp add: round_half_even_def Let_def)
  qed
qed

lemma rhe_0 [simp]: "round_half_even 0 = 0"
  using rhe_of_int [of 0] by simp

lemma rhe_err: "\<bar>of_int (round_half_even r) - r\<bar> \<le> 1 / 2"
proof -
  have fl: "of_int \<lfloor>r\<rfloor> \<le> r" "r < of_int \<lfloor>r\<rfloor> + 1" by linarith+
  show ?thesis
  proof (cases r rule: rhe_cases)
    case down
    then show ?thesis using fl by simp
  next
    case up
    then show ?thesis using fl by simp
  next
    case tie_even
    then show ?thesis using fl by simp
  next
    case tie_odd
    then show ?thesis using fl by simp
  qed
qed

lemma rhe_lower: "\<lfloor>r\<rfloor> \<le> round_half_even r"
  by (cases r rule: rhe_cases) simp_all

lemma rhe_upper: "round_half_even r \<le> \<lfloor>r\<rfloor> + 1"
  by (cases r rule: rhe_cases) simp_all

lemma rhe_mono:
  assumes "r \<le> s"
  shows "round_half_even r \<le> round_half_even s"
proof (cases "\<lfloor>r\<rfloor> = \<lfloor>s\<rfloor>")
  case True
  show ?thesis
  proof (cases r rule: rhe_cases)
    case down
    then show ?thesis using rhe_lower [of s] True by simp
  next
    case up
    then have "1 / 2 < s - of_int \<lfloor>s\<rfloor>" using assms True by simp
    then have "round_half_even s = \<lfloor>s\<rfloor> + 1"
      by (simp add: round_half_even_def Let_def)
    then show ?thesis using up True by simp
  next
    case tie_even
    then show ?thesis using rhe_lower [of s] True by simp
  next
    case tie_odd
    then have "1 / 2 \<le> s - of_int \<lfloor>s\<rfloor>" "odd \<lfloor>s\<rfloor>" using assms True by simp_all
    then have "round_half_even s = \<lfloor>s\<rfloor> + 1"
      by (auto simp: round_half_even_def Let_def)
    then show ?thesis using tie_odd True by simp
  qed
next
  case False
  then have lt: "\<lfloor>r\<rfloor> + 1 \<le> \<lfloor>s\<rfloor>"
    using assms floor_mono [of r s] by linarith
  then show ?thesis
    using rhe_upper [of r] rhe_lower [of s] by linarith
qed

lemma rhe_minus: "round_half_even (- r) = - round_half_even r"
proof (cases "r = of_int \<lfloor>r\<rfloor>")
  case True
  have "round_half_even (- of_int \<lfloor>r\<rfloor>) = - round_half_even (of_int \<lfloor>r\<rfloor> :: real)"
    unfolding of_int_minus [symmetric] rhe_of_int ..
  then show ?thesis using True by simp
next
  case False
  have b: "of_int \<lfloor>r\<rfloor> \<le> r" "r < of_int \<lfloor>r\<rfloor> + 1" by linarith+
  have "of_int \<lfloor>r\<rfloor> < r"
    by (rule le_neq_trans [OF of_int_floor_le]) (use False in auto)
  with b have "of_int (- \<lfloor>r\<rfloor> - 1) \<le> - r" "- r < of_int (- \<lfloor>r\<rfloor> - 1) + 1"
    by (simp_all only: of_int_diff of_int_minus of_int_1)
  then have fl: "\<lfloor>- r\<rfloor> = - \<lfloor>r\<rfloor> - 1"
    by (intro floor_unique)
  have d: "- r - of_int \<lfloor>- r\<rfloor> = 1 - (r - of_int \<lfloor>r\<rfloor>)"
    unfolding fl by simp
  show ?thesis
  proof (cases r rule: rhe_cases)
    case down
    then have "1 / 2 < - r - of_int \<lfloor>- r\<rfloor>" unfolding d by simp
    then have "round_half_even (- r) = \<lfloor>- r\<rfloor> + 1"
      by (simp add: round_half_even_def Let_def)
    then show ?thesis using down fl by simp
  next
    case up
    then have "- r - of_int \<lfloor>- r\<rfloor> < 1 / 2" unfolding d by simp
    then have "round_half_even (- r) = \<lfloor>- r\<rfloor>"
      by (simp add: round_half_even_def Let_def)
    then show ?thesis using up fl by simp
  next
    case tie_even
    then have "- r - of_int \<lfloor>- r\<rfloor> = 1 / 2" "odd \<lfloor>- r\<rfloor>" unfolding d fl by simp_all
    then have "round_half_even (- r) = \<lfloor>- r\<rfloor> + 1"
      by (simp add: round_half_even_def Let_def)
    then show ?thesis using tie_even fl by simp
  next
    case tie_odd
    then have "- r - of_int \<lfloor>- r\<rfloor> = 1 / 2" "even \<lfloor>- r\<rfloor>" unfolding d fl by simp_all
    then have "round_half_even (- r) = \<lfloor>- r\<rfloor>"
      by (simp add: round_half_even_def Let_def)
    then show ?thesis using tie_odd fl by simp
  qed
qed

lemma two_powr_nat: "(2::real) powr real n = 2 ^ n"
  by (simp add: powr_realpow)

lemma two_powr_neg_nat: "(2::real) powr (- real n) = 1 / 2 ^ n"
  by (simp add: powr_minus powr_realpow divide_inverse)

lemma ulp_pos: "0 < ulp x"
  by (simp add: ulp_def)

lemma round_f64_alt: "round_f64 x = of_int (round_half_even (x / ulp x)) * ulp x"
  by (simp add: round_f64_def ulp_def)

lemma ulp_minus: "ulp (- x) = ulp x"
  by (simp add: ulp_def ulp_exp_def)

lemma round_f64_minus: "round_f64 (- x) = - round_f64 x"
  by (simp add: round_f64_alt ulp_minus rhe_minus)

lemma round_f64_0 [simp]: "round_f64 0 = 0"
  by (simp add: round_f64_def)

lemma floor_log_bounds:
  assumes "x \<noteq> 0"
  shows "2 powr of_int \<lfloor>log 2 \<bar>x\<bar>\<rfloor> \<le> \<bar>x\<bar>" and "\<bar>x\<bar> < 2 powr of_int (\<lfloor>log 2 \<bar>x\<bar>\<rfloor> + 1)"
proof -
  have pos: "0 < \<bar>x\<bar>" using assms by simp
  have "of_int \<lfloor>log 2 \<bar>x\<bar>\<rfloor> \<le> log 2 \<bar>x\<bar>" by simp
  then show "2 powr of_int \<lfloor>log 2 \<bar>x\<bar>\<rfloor> \<le> \<bar>x\<bar>"
    using pos by (simp add: powr_le_iff)
  have "log 2 \<bar>x\<bar> < of_int (\<lfloor>log 2 \<bar>x\<bar>\<rfloor> + 1)" by linarith
  then show "\<bar>x\<bar> < 2 powr of_int (\<lfloor>log 2 \<bar>x\<bar>\<rfloor> + 1)"
    using pos by (simp add: less_powr_iff)
qed

lemma floor_log_eqI:
  assumes "2 powr of_int e \<le> \<bar>x\<bar>" and "\<bar>x\<bar> < 2 powr of_int (e + 1)"
  shows "\<lfloor>log 2 \<bar>x\<bar>\<rfloor> = e"
proof (rule floor_unique)
  have pos: "0 < \<bar>x\<bar>"
    using assms(1) powr_gt_zero [of 2 "of_int e"] by linarith
  show "of_int e \<le> log 2 \<bar>x\<bar>"
    using assms(1) pos by (simp add: le_log_iff)
  show "log 2 \<bar>x\<bar> < of_int e + 1"
    using assms(2) pos by (simp add: log_less_iff)
qed

lemma round_f64_err_ulp: "\<bar>round_f64 x - x\<bar> \<le> ulp x / 2"
proof -
  have "\<bar>of_int (round_half_even (x / ulp x)) - x / ulp x\<bar> * ulp x \<le> 1 / 2 * ulp x"
    using rhe_err [of "x / ulp x"] ulp_pos [of x] by (intro mult_right_mono) simp_all
  moreover have "\<bar>of_int (round_half_even (x / ulp x)) - x / ulp x\<bar> * ulp x = \<bar>round_f64 x - x\<bar>"
  proof -
    have "\<bar>of_int (round_half_even (x / ulp x)) - x / ulp x\<bar> * ulp x =
          \<bar>(of_int (round_half_even (x / ulp x)) - x / ulp x) * ulp x\<bar>"
      using ulp_pos [of x] by (simp add: abs_mult)
    also have "(of_int (round_half_even (x / ulp x)) - x / ulp x) * ulp x = round_f64 x - x"
      using ulp_pos [of x] by (simp add: round_f64_alt field_simps)
    finally show ?thesis .
  qed
  ultimately show ?thesis by simp
qed

lemma ulp_bound:
  assumes x: "x \<noteq> 0"
  shows "ulp x / 2 \<le> eps * \<bar>x\<bar> + eta"
proof (cases "\<lfloor>log 2 \<bar>x\<bar>\<rfloor> < - 1022")
  case True
  then have "ulp_exp x = - 1074"
    by (auto simp: ulp_exp_def)
  then have "ulp x = 1 / 2 ^ 1074"
    using two_powr_neg_nat [of 1074] by (simp add: ulp_def)
  then show ?thesis by (simp add: eps_def eta_def)
next
  case False
  then have e: "- 1022 \<le> \<lfloor>log 2 \<bar>x\<bar>\<rfloor>" by auto
  then have "ulp_exp x = \<lfloor>log 2 \<bar>x\<bar>\<rfloor> - 52"
    by (simp add: ulp_exp_def)
  then have "ulp x = 2 powr (of_int \<lfloor>log 2 \<bar>x\<bar>\<rfloor> + (- 52))"
    by (simp add: ulp_def)
  also have "\<dots> = 2 powr of_int \<lfloor>log 2 \<bar>x\<bar>\<rfloor> * 2 powr (- 52)"
    by (rule powr_add)
  also have "\<dots> \<le> \<bar>x\<bar> * 2 powr (- 52)"
    using floor_log_bounds(1) [OF x] by (intro mult_right_mono) simp_all
  also have "2 powr (- 52) = (1 / 2 ^ 52 :: real)"
    using two_powr_neg_nat [of 52] by simp
  finally have "ulp x / 2 \<le> eps * \<bar>x\<bar>"
    by (simp add: eps_def)
  then show ?thesis by (simp add: eta_def)
qed

lemma round_f64_err: "\<bar>round_f64 x - x\<bar> \<le> eps * \<bar>x\<bar> + eta"
proof (cases "x = 0")
  case True
  then show ?thesis by (simp add: eta_def)
next
  case False
  then show ?thesis
    using round_f64_err_ulp [of x] ulp_bound [of x] by linarith
qed

lemma two_powr_int_nonneg: "0 \<le> k \<Longrightarrow> (2::real) powr of_int k = 2 ^ nat k"
  using two_powr_nat [of "nat k"] by simp

lemma two_powr_int_nonpos: "k \<le> 0 \<Longrightarrow> (2::real) powr of_int k = 1 / 2 ^ nat (- k)"
  using two_powr_neg_nat [of "nat (- k)"] by simp

lemma ulp_exp_eqI:
  assumes "2 powr of_int e \<le> \<bar>x\<bar>" and "\<bar>x\<bar> < 2 powr of_int (e + 1)"
  shows "ulp_exp x = max e (- 1022) - 52"
  using floor_log_eqI [OF assms] by (simp add: ulp_exp_def)

lemma round_f64_up:
  assumes "2 ^ 52 \<le> \<bar>x\<bar> * 2 ^ n" and "\<bar>x\<bar> * 2 ^ n < 2 ^ 53" and "n \<le> 1074"
  shows "round_f64 x = of_int (round_half_even (x * 2 ^ n)) / 2 ^ n"
proof -
  have x: "x \<noteq> 0" using assms(1) by auto
  have p: "(2::real) powr of_int (52 - int n) = 2 ^ 52 / 2 ^ n"
  proof -
    have "(2::real) powr of_int (52 - int n) = 2 powr (52 + (- real n))" by simp
    also have "\<dots> = 2 powr 52 * 2 powr (- real n)" by (rule powr_add)
    also have "\<dots> = 2 ^ 52 / 2 ^ n"
      using two_powr_nat [of 52] two_powr_neg_nat [of n] by simp
    finally show ?thesis .
  qed
  have q: "(2::real) powr of_int (52 - int n + 1) = 2 ^ 53 / 2 ^ n"
  proof -
    have "(2::real) powr of_int (52 - int n + 1) = 2 powr (53 + (- real n))" by simp
    also have "\<dots> = 2 powr 53 * 2 powr (- real n)" by (rule powr_add)
    also have "\<dots> = 2 ^ 53 / 2 ^ n"
      using two_powr_nat [of 53] two_powr_neg_nat [of n] by simp
    finally show ?thesis .
  qed
  have "2 powr of_int (52 - int n) \<le> \<bar>x\<bar>"
    unfolding p using assms(1) by (simp add: field_simps)
  moreover have "\<bar>x\<bar> < 2 powr of_int (52 - int n + 1)"
    unfolding q using assms(2) by (simp add: field_simps)
  ultimately have "ulp_exp x = max (52 - int n) (- 1022) - 52"
    by (rule ulp_exp_eqI)
  then have "ulp_exp x = - int n"
    using assms(3) by simp
  then have "ulp x = 1 / 2 ^ n"
    using two_powr_neg_nat [of n] by (simp add: ulp_def)
  then show ?thesis
    by (simp add: round_f64_alt)
qed

lemma round_f64_down:
  assumes "2 ^ 52 \<le> \<bar>x\<bar> / 2 ^ n" and "\<bar>x\<bar> / 2 ^ n < 2 ^ 53"
  shows "round_f64 x = of_int (round_half_even (x / 2 ^ n)) * 2 ^ n"
proof -
  have p: "(2::real) powr of_int (52 + int n) = 2 ^ 52 * 2 ^ n"
  proof -
    have "(2::real) powr of_int (52 + int n) = 2 powr (52 + real n)" by simp
    also have "\<dots> = 2 powr 52 * 2 powr real n" by (rule powr_add)
    also have "\<dots> = 2 ^ 52 * 2 ^ n"
      using two_powr_nat [of 52] two_powr_nat [of n] by simp
    finally show ?thesis .
  qed
  have q: "(2::real) powr of_int (52 + int n + 1) = 2 ^ 53 * 2 ^ n"
  proof -
    have "(2::real) powr of_int (52 + int n + 1) = 2 powr (53 + real n)" by simp
    also have "\<dots> = 2 powr 53 * 2 powr real n" by (rule powr_add)
    also have "\<dots> = 2 ^ 53 * 2 ^ n"
      using two_powr_nat [of 53] two_powr_nat [of n] by simp
    finally show ?thesis .
  qed
  have "2 powr of_int (52 + int n) \<le> \<bar>x\<bar>"
    unfolding p using assms(1) by (simp add: field_simps)
  moreover have "\<bar>x\<bar> < 2 powr of_int (52 + int n + 1)"
    unfolding q using assms(2) by (simp add: field_simps)
  ultimately have "ulp_exp x = max (52 + int n) (- 1022) - 52"
    by (rule ulp_exp_eqI)
  then have "ulp_exp x = int n" by simp
  then have "ulp x = 2 ^ n"
    using two_powr_nat [of n] by (simp add: ulp_def)
  then show ?thesis
    by (simp add: round_f64_alt)
qed

lemma round_f64_nonneg: "0 \<le> x \<Longrightarrow> 0 \<le> round_f64 x"
proof -
  assume "0 \<le> x"
  then have "0 \<le> x / ulp x" using ulp_pos [of x] by simp
  then have "round_half_even 0 \<le> round_half_even (x / ulp x)" by (rule rhe_mono)
  then show ?thesis using ulp_pos [of x] by (simp add: round_f64_alt)
qed

lemma ulp_exp_mono:
  assumes "0 < x" and "x \<le> y"
  shows "ulp_exp x \<le> ulp_exp y"
proof -
  have "log 2 \<bar>x\<bar> \<le> log 2 \<bar>y\<bar>" using assms by simp
  then have "\<lfloor>log 2 \<bar>x\<bar>\<rfloor> \<le> \<lfloor>log 2 \<bar>y\<bar>\<rfloor>" by (rule floor_mono)
  then show ?thesis by (simp add: ulp_exp_def)
qed

lemma ulp_times_pow: "ulp x * 2 ^ n = 2 powr of_int (ulp_exp x + int n)"
proof -
  have "2 powr of_int (ulp_exp x + int n) = 2 powr (of_int (ulp_exp x) + real n)" by simp
  also have "\<dots> = 2 powr of_int (ulp_exp x) * 2 powr real n" by (rule powr_add)
  finally show ?thesis by (simp add: ulp_def two_powr_nat)
qed

lemma ulp_times_52: "2 ^ 52 * ulp x = 2 powr of_int (ulp_exp x + 52)"
  using ulp_times_pow [of x 52] by (simp add: mult.commute)

lemma ulp_times_53: "2 ^ 53 * ulp x = 2 powr of_int (ulp_exp x + 53)"
  using ulp_times_pow [of x 53] by (simp add: mult.commute)

lemma round_f64_upper:
  assumes "0 < x"
  shows "round_f64 x \<le> 2 powr of_int (ulp_exp x + 53)"
proof -
  have x: "x \<noteq> 0" using assms by simp
  have "\<lfloor>log 2 \<bar>x\<bar>\<rfloor> + 1 \<le> ulp_exp x + 53" by (simp add: ulp_exp_def)
  then have "(2::real) powr of_int (\<lfloor>log 2 \<bar>x\<bar>\<rfloor> + 1) \<le> 2 powr of_int (ulp_exp x + 53)"
    by (intro powr_mono) simp_all
  then have "x \<le> 2 powr of_int (ulp_exp x + 53)"
    using floor_log_bounds(2) [OF x] assms by linarith
  also have "\<dots> = 2 ^ 53 * ulp x"
    by (rule ulp_times_53 [symmetric])
  finally have "x / ulp x \<le> of_int (2 ^ 53)"
    using ulp_pos [of x] by (simp add: field_simps)
  then have "round_half_even (x / ulp x) \<le> round_half_even (of_int (2 ^ 53))"
    by (rule rhe_mono)
  then have "round_half_even (x / ulp x) \<le> 2 ^ 53" by (simp only: rhe_of_int)
  then have "of_int (round_half_even (x / ulp x)) \<le> (2 ^ 53 :: real)"
    by (metis of_int_le_iff of_int_numeral of_int_power)
  then have "round_f64 x \<le> 2 ^ 53 * ulp x"
    unfolding round_f64_alt using ulp_pos [of x] by (intro mult_right_mono) simp_all
  also have "\<dots> = 2 powr of_int (ulp_exp x + 53)"
    by (rule ulp_times_53)
  finally show ?thesis .
qed

lemma round_f64_lower:
  assumes "0 < y" and "- 1074 < ulp_exp y"
  shows "2 powr of_int (ulp_exp y + 52) \<le> round_f64 y"
proof -
  have y: "y \<noteq> 0" using assms by simp
  have "ulp_exp y = \<lfloor>log 2 \<bar>y\<bar>\<rfloor> - 52"
    using assms(2) by (simp add: ulp_exp_def max_def split: if_splits)
  then have "ulp_exp y + 52 = \<lfloor>log 2 \<bar>y\<bar>\<rfloor>" by simp
  then have "2 powr of_int (ulp_exp y + 52) \<le> y"
    using floor_log_bounds(1) [OF y] assms(1) by simp
  then have "2 ^ 52 * ulp y \<le> y"
    by (simp only: ulp_times_52)
  then have "of_int (2 ^ 52) \<le> y / ulp y"
    using ulp_pos [of y] by (simp add: field_simps)
  then have "round_half_even (of_int (2 ^ 52)) \<le> round_half_even (y / ulp y)"
    by (rule rhe_mono)
  then have "2 ^ 52 \<le> round_half_even (y / ulp y)" by (simp only: rhe_of_int)
  then have "(2 ^ 52 :: real) \<le> of_int (round_half_even (y / ulp y))"
    by (metis of_int_le_iff of_int_numeral of_int_power)
  then have "2 ^ 52 * ulp y \<le> round_f64 y"
    unfolding round_f64_alt using ulp_pos [of y] by (intro mult_right_mono) simp_all
  then show ?thesis
    by (simp only: ulp_times_52)
qed

lemma round_f64_mono_pos:
  assumes "0 < x" and "x \<le> y"
  shows "round_f64 x \<le> round_f64 y"
proof (cases "ulp_exp x = ulp_exp y")
  case True
  then have u: "ulp x = ulp y" by (simp add: ulp_def)
  have "x / ulp y \<le> y / ulp y"
    using assms(2) ulp_pos [of y] by (simp add: divide_right_mono)
  then have "round_half_even (x / ulp y) \<le> round_half_even (y / ulp y)"
    by (rule rhe_mono)
  then show ?thesis
    unfolding round_f64_alt u using ulp_pos [of y] by (intro mult_right_mono) simp_all
next
  case False
  then have lt: "ulp_exp x + 1 \<le> ulp_exp y"
    using ulp_exp_mono [OF assms] by simp
  have "- 1074 \<le> ulp_exp x" by (simp add: ulp_exp_def)
  then have "- 1074 < ulp_exp y" using lt by simp
  then have "2 powr of_int (ulp_exp y + 52) \<le> round_f64 y"
    using assms by (intro round_f64_lower) simp_all
  moreover have "round_f64 x \<le> 2 powr of_int (ulp_exp x + 53)"
    using assms(1) by (rule round_f64_upper)
  moreover have "(2::real) powr of_int (ulp_exp x + 53) \<le> 2 powr of_int (ulp_exp y + 52)"
    using lt by (intro powr_mono) simp_all
  ultimately show ?thesis by linarith
qed

lemma round_f64_mono:
  assumes "x \<le> y"
  shows "round_f64 x \<le> round_f64 y"
proof -
  consider "0 < x" | "x \<le> 0" "0 \<le> y" | "y < 0" using assms by linarith
  then show ?thesis
  proof cases
    case 1
    then show ?thesis using assms by (rule round_f64_mono_pos)
  next
    case 2
    have "round_f64 x = - round_f64 (- x)" by (simp add: round_f64_minus)
    moreover have "0 \<le> round_f64 (- x)" using 2(1) by (intro round_f64_nonneg) simp
    moreover have "0 \<le> round_f64 y" using 2(2) by (rule round_f64_nonneg)
    ultimately show ?thesis by linarith
  next
    case 3
    then have "round_f64 (- y) \<le> round_f64 (- x)"
      using assms by (intro round_f64_mono_pos) simp_all
    then show ?thesis by (simp add: round_f64_minus)
  qed
qed

lemma round_f64_exactI:
  assumes "x / ulp x = of_int k"
  shows "round_f64 x = x"
proof -
  have "round_f64 x = of_int k * ulp x"
    unfolding round_f64_alt assms rhe_of_int ..
  also have "\<dots> = x / ulp x * ulp x"
    by (simp only: assms)
  also have "\<dots> = x"
    using ulp_pos [of x] by simp
  finally show ?thesis .
qed

lemma round_f64_nat:
  assumes "n < 2 ^ 53"
  shows "round_f64 (real n) = real n"
proof (cases "n = 0")
  case True
  then show ?thesis by simp
next
  case False
  define e where "e = \<lfloor>log 2 \<bar>real n\<bar>\<rfloor>"
  have n: "real n \<noteq> 0" using False by simp
  have lo: "2 powr of_int e \<le> real n" and hi: "real n < 2 powr of_int (e + 1)"
    using floor_log_bounds [OF n] by (simp_all add: e_def)
  have e0: "0 \<le> e"
  proof -
    have "1 \<le> real n" using False by simp
    then have "0 \<le> log 2 \<bar>real n\<bar>" by simp
    then show ?thesis unfolding e_def by simp
  qed
  have e52: "e \<le> 52"
  proof (rule ccontr)
    assume "\<not> e \<le> 52"
    then have "53 \<le> e" by simp
    then have "(2::real) powr of_int 53 \<le> 2 powr of_int e"
      by (intro powr_mono) simp_all
    then have "(2::real) ^ 53 \<le> real n"
      using lo two_powr_nat [of 53] by simp
    then show False using assms
      by (metis of_nat_less_iff of_nat_numeral of_nat_power not_less)
  qed
  have ue: "ulp_exp (real n) = e - 52"
    using e0 by (simp add: ulp_exp_def e_def)
  have "ulp (real n) = 1 / 2 ^ nat (52 - e)"
    using two_powr_int_nonpos [of "e - 52"] e52 by (simp add: ulp_def ue)
  then have "real n / ulp (real n) = of_int (int n * 2 ^ nat (52 - e))"
    by simp
  then show ?thesis by (rule round_f64_exactI)
qed

lemma round_f64_1 [simp]: "round_f64 1 = 1"
  using round_f64_nat [of 1] by simp

lemma eps_eta_pos: "0 < eps" "0 < eta"
  by (simp_all add: eps_def eta_def)

lemma forward_error:
  fixes d D w :: real
  assumes D: "1 / 2 ^ 900 \<le> D" and w: "0 \<le> w" "w \<le> 2 ^ 53"
  defines "b \<equiv> round_f64 D"
  defines "a \<equiv> round_f64 d"
  defines "q \<equiv> round_f64 (a / b)"
  defines "v \<equiv> round_f64 (q * w)"
  shows "\<bar>v - d / D * w\<bar> \<le> 10 * eps * \<bar>d / D * w\<bar> + 1 / 2 ^ 118"
    and "D / 2 \<le> b" and "\<bar>b - D\<bar> \<le> 2 * eps * D"
proof -
  define r where "r = \<bar>d\<bar> / D"
  define k where "k = 2 * eta / D"
  have Dpos: "0 < D"
    using D by (rule less_le_trans [rotated]) simp
  have r0: "0 \<le> r" using Dpos by (simp add: r_def)
  have k0: "0 \<le> k" using Dpos by (simp add: k_def eta_def)
  have kle: "k \<le> 1 / 2 ^ 174"
  proof -
    have "k * D = 2 * eta" using Dpos by (simp add: k_def)
    moreover have "k * (1 / 2 ^ 900) \<le> k * D" using D k0 by (rule mult_left_mono)
    ultimately have "k * (1 / 2 ^ 900) \<le> 2 * eta" by simp
    then show ?thesis by (simp add: eta_def)
  qed
  have eta_le: "eta \<le> eps * D"
  proof -
    have "eps * (1 / 2 ^ 900) \<le> eps * D"
      using D by (intro mult_left_mono) (simp_all add: eps_def)
    then show ?thesis by (simp add: eps_def eta_def)
  qed
  have eb: "\<bar>b - D\<bar> \<le> 2 * eps * D"
    using round_f64_err [of D] eta_le Dpos unfolding b_def by simp
  then show "\<bar>b - D\<bar> \<le> 2 * eps * D" .
  have bD: "D / 2 \<le> b"
  proof -
    have "2 * eps * D \<le> D / 2" using Dpos unfolding eps_def by (simp add: add_divide_distrib; linarith)
    then show ?thesis using eb by linarith
  qed
  then show "D / 2 \<le> b" .
  have bpos: "0 < b" using bD Dpos by simp
  have ea: "\<bar>a - d\<bar> \<le> eps * \<bar>d\<bar> + eta"
    unfolding a_def by (rule round_f64_err)
  have f4: "\<bar>a / b - d / D\<bar> \<le> 6 * eps * r + k"
  proof -
    have "a / b - d / D = ((a - d) * D - d * (b - D)) / (b * D)"
      using bpos Dpos by (simp add: field_simps)
    then have "\<bar>a / b - d / D\<bar> = \<bar>(a - d) * D - d * (b - D)\<bar> / (b * D)"
      using bpos Dpos by (simp add: abs_mult)
    also have "\<bar>(a - d) * D - d * (b - D)\<bar> \<le> \<bar>a - d\<bar> * D + \<bar>d\<bar> * \<bar>b - D\<bar>"
      using abs_triangle_ineq4 [of "(a - d) * D" "d * (b - D)"] Dpos
      by (simp add: abs_mult)
    also have "\<dots> \<le> (eps * \<bar>d\<bar> + eta) * D + \<bar>d\<bar> * (2 * eps * D)"
      using ea eb Dpos by (intro add_mono mult_right_mono mult_left_mono) simp_all
    also have "\<dots> = (3 * eps * \<bar>d\<bar> + eta) * D"
      by (simp add: algebra_simps)
    finally have "\<bar>a / b - d / D\<bar> \<le> (3 * eps * \<bar>d\<bar> + eta) * D / (b * D)"
      using bpos Dpos by (simp add: divide_right_mono)
    also have "\<dots> = (3 * eps * \<bar>d\<bar> + eta) / b"
      using Dpos by simp
    also have "\<dots> \<le> (3 * eps * \<bar>d\<bar> + eta) / (D / 2)"
      using bD Dpos eps_eta_pos by (intro divide_left_mono mult_pos_pos add_nonneg_nonneg) simp_all
    also have "\<dots> = 6 * eps * r + k"
      using Dpos by (simp add: r_def k_def field_simps)
    finally show ?thesis .
  qed
  have dD: "\<bar>d / D\<bar> = r" using Dpos by (simp add: r_def)
  have f5: "\<bar>a / b\<bar> \<le> 2 * r + k"
  proof -
    have "\<bar>a / b\<bar> \<le> \<bar>a / b - d / D\<bar> + \<bar>d / D\<bar>" by linarith
    then have "\<bar>a / b\<bar> \<le> 6 * eps * r + k + r" using f4 dD by linarith
    then show ?thesis using r0 unfolding eps_def by (simp add: add_divide_distrib; linarith)
  qed
  have f6: "\<bar>q - a / b\<bar> \<le> eps * (2 * r + k) + eta"
  proof -
    have "\<bar>q - a / b\<bar> \<le> eps * \<bar>a / b\<bar> + eta"
      unfolding q_def by (rule round_f64_err)
    moreover have "eps * \<bar>a / b\<bar> \<le> eps * (2 * r + k)"
      using f5 eps_eta_pos by (intro mult_left_mono) simp_all
    ultimately show ?thesis by linarith
  qed
  have f7: "\<bar>q - d / D\<bar> \<le> 8 * eps * r + 2 * k + eta"
  proof -
    have "\<bar>q - d / D\<bar> \<le> \<bar>q - a / b\<bar> + \<bar>a / b - d / D\<bar>" by linarith
    then have "\<bar>q - d / D\<bar> \<le> eps * (2 * r + k) + eta + (6 * eps * r + k)"
      using f6 f4 by linarith
    then show ?thesis using k0 unfolding eps_def by (simp add: add_divide_distrib; linarith)
  qed
  have f7': "\<bar>q\<bar> \<le> 2 * r + 2 * k + eta"
  proof -
    have "\<bar>q\<bar> \<le> \<bar>q - d / D\<bar> + \<bar>d / D\<bar>" by linarith
    then have "\<bar>q\<bar> \<le> 8 * eps * r + 2 * k + eta + r" using f7 dD by linarith
    then show ?thesis using r0 unfolding eps_def by (simp add: add_divide_distrib; linarith)
  qed
  have f8: "\<bar>v - q * w\<bar> \<le> eps * ((2 * r + 2 * k + eta) * w) + eta"
  proof -
    have "\<bar>v - q * w\<bar> \<le> eps * \<bar>q * w\<bar> + eta"
      unfolding v_def by (rule round_f64_err)
    moreover have "\<bar>q * w\<bar> \<le> (2 * r + 2 * k + eta) * w"
      using f7' w(1) by (simp add: abs_mult mult_right_mono)
    then have "eps * \<bar>q * w\<bar> \<le> eps * ((2 * r + 2 * k + eta) * w)"
      using eps_eta_pos by (intro mult_left_mono) simp_all
    ultimately show ?thesis by linarith
  qed
  have f9: "\<bar>q * w - d / D * w\<bar> \<le> (8 * eps * r + 2 * k + eta) * w"
  proof -
    have "q * w - d / D * w = (q - d / D) * w"
      by (simp only: left_diff_distrib)
    then have "\<bar>q * w - d / D * w\<bar> = \<bar>q - d / D\<bar> * \<bar>w\<bar>"
      by (simp only: abs_mult)
    then have "\<bar>q * w - d / D * w\<bar> = \<bar>q - d / D\<bar> * w"
      using w(1) by (simp only: abs_of_nonneg)
    then show ?thesis using f7 w(1) by (simp add: mult_right_mono)
  qed
  have rw0: "0 \<le> r * w" and kw0: "0 \<le> k * w"
    using r0 k0 w(1) by simp_all
  have kw: "k * w \<le> 1 / 2 ^ 174 * 2 ^ 53"
    using kle w k0 by (intro mult_mono) simp_all
  have "\<bar>v - d / D * w\<bar> \<le> \<bar>v - q * w\<bar> + \<bar>q * w - d / D * w\<bar>" by linarith
  then have "\<bar>v - d / D * w\<bar> \<le>
      eps * ((2 * r + 2 * k + eta) * w) + eta + (8 * eps * r + 2 * k + eta) * w"
    using f8 f9 by linarith
  also have "\<dots> = 10 * eps * (r * w) + (2 * eps + 2) * (k * w) + (eps * eta + eta) * w + eta"
    by (simp add: algebra_simps)
  also have "\<dots> \<le> 10 * eps * (r * w) + 1 / 2 ^ 118"
  proof -
    have "(2 * eps + 2) * (k * w) \<le> 3 * (1 / 2 ^ 174 * 2 ^ 53)"
      using kw kw0 unfolding eps_def by (simp add: add_divide_distrib; linarith)
    moreover have "(eps * eta + eta) * w \<le> (eps * eta + eta) * 2 ^ 53"
      using w eps_eta_pos by (intro mult_left_mono add_nonneg_nonneg mult_nonneg_nonneg) simp_all
    ultimately have "(2 * eps + 2) * (k * w) + (eps * eta + eta) * w + eta \<le>
        3 * (1 / 2 ^ 174 * 2 ^ 53) + (eps * eta + eta) * 2 ^ 53 + eta" by linarith
    also have "\<dots> \<le> 1 / 2 ^ 118"
      by (simp add: eps_def eta_def)
    finally show ?thesis by simp
  qed
  also have "r * w = \<bar>d / D * w\<bar>"
    using w(1) Dpos by (simp add: abs_mult r_def)
  finally show "\<bar>v - d / D * w\<bar> \<le> 10 * eps * \<bar>d / D * w\<bar> + 1 / 2 ^ 118" .
qed

lemma round_f64_abs_le:
  assumes "\<bar>x\<bar> \<le> real n" and "n < 2 ^ 53"
  shows "\<bar>round_f64 x\<bar> \<le> real n"
proof -
  have "round_f64 (- real n) \<le> round_f64 x" "round_f64 x \<le> round_f64 (real n)"
    using assms(1) by (intro round_f64_mono; linarith)+
  then show ?thesis
    using round_f64_nat [OF assms(2)] by (simp add: round_f64_minus abs_le_iff)
qed

lemma round_f64_pow2: "round_f64 (2 ^ n) = 2 ^ n"
proof -
  have "ulp_exp (2 ^ n) = max (int n) (- 1022) - 52"
    by (simp add: ulp_exp_def)
  then have e: "ulp_exp (2 ^ n :: real) = int n - 52" by simp
  have u: "ulp (2 ^ n) = 2 ^ n / 2 ^ 52"
  proof (cases "52 \<le> n")
    case True
    then have "ulp (2 ^ n) = 2 ^ (n - 52)"
      unfolding ulp_def e using two_powr_nat [of "n - 52"] by (simp add: of_nat_diff)
    also have "\<dots> = 2 ^ n / 2 ^ 52"
      using True by (simp add: power_diff)
    finally show ?thesis .
  next
    case False
    then have "ulp (2 ^ n) = 1 / 2 ^ (52 - n)"
      unfolding ulp_def e using two_powr_neg_nat [of "52 - n"] by (simp add: of_nat_diff)
    moreover have "(2::real) ^ n / 2 ^ 52 = 1 / 2 ^ (52 - n)"
    proof -
      have "(2::real) ^ 52 = 2 ^ n * 2 ^ (52 - n)"
        using False by (simp only: power_add [symmetric]) simp
      then have "(2::real) ^ n / 2 ^ 52 = 2 ^ n / (2 ^ n * 2 ^ (52 - n))"
        by (simp only:)
      also have "\<dots> = 1 / 2 ^ (52 - n)"
        by simp
      finally show ?thesis .
    qed
    ultimately show ?thesis by (simp only:)
  qed
  have "(2::real) ^ n / ulp (2 ^ n) = of_int (2 ^ 52)"
    unfolding u by simp
  then show ?thesis by (rule round_f64_exactI)
qed

lemma round_f64_abs_le_pow2:
  assumes "\<bar>x\<bar> \<le> 2 ^ n"
  shows "\<bar>round_f64 x\<bar> \<le> 2 ^ n"
proof -
  have "round_f64 (- (2 ^ n)) \<le> round_f64 x" "round_f64 x \<le> round_f64 (2 ^ n)"
    using assms by (intro round_f64_mono; linarith)+
  then show ?thesis
    by (simp add: round_f64_minus round_f64_pow2 abs_le_iff)
qed

lemma fl_Fin:
  assumes "\<bar>x\<bar> \<le> 2 ^ 1023"
  shows "fl x = Fin (round_f64 x)"
proof -
  have "\<bar>round_f64 x\<bar> \<le> 2 ^ 1023"
    using assms by (rule round_f64_abs_le_pow2)
  moreover have "(2::real) ^ 1023 \<le> max_f64"
    by (simp add: max_f64_def)
  ultimately have "\<not> max_f64 < round_f64 x" "\<not> round_f64 x < - max_f64"
    by linarith+
  then show ?thesis by (simp add: fl_def Let_def)
qed

lemma fl_eqI:
  assumes "round_f64 x = r" and "\<bar>r\<bar> \<le> 2 ^ 1023"
  shows "fl x = Fin r"
proof -
  have "(2::real) ^ 1023 \<le> max_f64"
    by (simp add: max_f64_def)
  then have "\<not> max_f64 < r" "\<not> r < - max_f64"
    using assms(2) by linarith+
  then show ?thesis by (simp add: fl_def Let_def assms(1))
qed

lemma round_f64_numeral:
  "numeral k < (2 ^ 53 :: nat) \<Longrightarrow> round_f64 (numeral k) = numeral k"
  using round_f64_nat [of "numeral k"] by simp

lemma abs_chain3:
  fixes a b c d :: real
  shows "\<bar>a - d\<bar> \<le> \<bar>a - b\<bar> + \<bar>b - c\<bar> + \<bar>c - d\<bar>"
  by linarith

lemma round_f64_unit:
  assumes "0 \<le> x" and "x \<le> 1"
  shows "0 \<le> round_f64 x" and "round_f64 x \<le> 1"
proof -
  show "0 \<le> round_f64 x" using assms(1) by (rule round_f64_nonneg)
  have "round_f64 x \<le> round_f64 1" using assms(2) by (rule round_f64_mono)
  then show "round_f64 x \<le> 1" by simp
qed

lemma forward_range:
  fixes d D :: real and w :: nat
  assumes D: "1 / 2 ^ 900 \<le> D" and d: "0 \<le> d" "d \<le> D" and w: "w < 2 ^ 53"
  defines "v \<equiv> round_f64 (round_f64 (round_f64 d / round_f64 D) * real w)"
  shows "0 \<le> round_f64 (round_f64 d / round_f64 D)"
    and "round_f64 (round_f64 d / round_f64 D) \<le> 1"
    and "0 \<le> v" and "v \<le> real w"
proof -
  have w': "0 \<le> real w" "real w \<le> 2 ^ 53" using w by simp_all
  have b: "D / 2 \<le> round_f64 D"
    using forward_error(2) [OF D w'] .
  have Dpos: "0 < D" using D by (rule less_le_trans [rotated]) simp
  then have bpos: "0 < round_f64 D" using b by linarith
  have a0: "0 \<le> round_f64 d" using d(1) by (rule round_f64_nonneg)
  have ab: "round_f64 d \<le> round_f64 D" using d(2) by (rule round_f64_mono)
  have r: "0 \<le> round_f64 d / round_f64 D" "round_f64 d / round_f64 D \<le> 1"
    using a0 ab bpos by simp_all
  show q: "0 \<le> round_f64 (round_f64 d / round_f64 D)"
    "round_f64 (round_f64 d / round_f64 D) \<le> 1"
    using round_f64_unit [OF r] .
  have "0 \<le> round_f64 (round_f64 d / round_f64 D) * real w"
    using q(1) by simp
  then show "0 \<le> v" unfolding v_def by (rule round_f64_nonneg)
  have "round_f64 (round_f64 d / round_f64 D) * real w \<le> 1 * real w"
    using q(2) by (intro mult_right_mono) simp_all
  then have "v \<le> round_f64 (real w)"
    unfolding v_def by (intro round_f64_mono) simp
  then show "v \<le> real w" using round_f64_nat [OF w] by simp
qed

lemma roundtrip_core:
  fixes d D :: real and w :: nat
  assumes D: "1 / 2 ^ 900 \<le> D" and d: "0 \<le> d" "d \<le> D" and w: "0 < w" "w < 2 ^ 53"
  defines "v \<equiv> round_f64 (round_f64 (round_f64 d / round_f64 D) * real w)"
  defines "xn \<equiv> round_f64 (of_int \<lfloor>v\<rfloor> / real w)"
  defines "t \<equiv> round_f64 (xn * round_f64 D)"
  shows "0 \<le> \<lfloor>v\<rfloor>" and "\<lfloor>v\<rfloor> \<le> int w"
    and "0 \<le> xn" and "xn \<le> 1"
    and "\<bar>t - d\<bar> \<le> D / real w + 16 * eps * D + eta"
proof -
  have w': "0 \<le> real w" "real w \<le> 2 ^ 53" using w by simp_all
  have wpos: "0 < real w" using w by simp
  have w1: "1 \<le> real w" using w by simp
  have Dpos: "0 < D" using D by (rule less_le_trans [rotated]) simp
  define b where "b = round_f64 D"
  define s where "s = d / D * real w"
  define k where "k = \<lfloor>v\<rfloor>"
  have s0: "0 \<le> s" using d Dpos by (simp add: s_def)
  have sw: "s \<le> real w"
  proof -
    have "d / D \<le> 1" using d Dpos by simp
    then have "d / D * real w \<le> 1 * real w" by (intro mult_right_mono) simp_all
    then show ?thesis by (simp add: s_def)
  qed
  have eb: "\<bar>b - D\<bar> \<le> 2 * eps * D" and bD: "D / 2 \<le> b"
    unfolding b_def using forward_error(2,3) [OF D w'] by simp_all
  have ev: "\<bar>v - s\<bar> \<le> 10 * eps * \<bar>s\<bar> + 1 / 2 ^ 118"
    unfolding v_def s_def using forward_error(1) [OF D w', of d] .
  have v0: "0 \<le> v" and vw: "v \<le> real w"
    unfolding v_def using forward_range(3,4) [OF D d w(2)] by simp_all
  show k0: "0 \<le> \<lfloor>v\<rfloor>" using v0 by simp
  show kw: "\<lfloor>v\<rfloor> \<le> int w" using vw by (simp add: floor_le_iff)
  have kr0: "0 \<le> (of_int k :: real)" using k0 by (simp add: k_def)
  have krw: "(of_int k :: real) \<le> real w"
    using kw unfolding k_def by (metis of_int_le_iff of_int_of_nat_eq)
  have kq0: "0 \<le> of_int k / real w" using kr0 wpos by simp
  have kq1: "of_int k / real w \<le> 1" using krw wpos by simp
  show xn0: "0 \<le> xn" and xn1: "xn \<le> 1"
    unfolding xn_def k_def [symmetric] using round_f64_unit [OF kq0 kq1] .
  have e1: "\<bar>xn - of_int k / real w\<bar> \<le> eps + eta"
  proof -
    have "\<bar>xn - of_int k / real w\<bar> \<le> eps * \<bar>of_int k / real w\<bar> + eta"
      unfolding xn_def k_def [symmetric] by (rule round_f64_err)
    moreover have "eps * \<bar>of_int k / real w\<bar> \<le> eps * 1"
      using kq0 kq1 eps_eta_pos by (intro mult_left_mono) simp_all
    ultimately show ?thesis by simp
  qed
  have e2: "\<bar>xn * b - of_int k / real w * D\<bar> \<le> 2 * eps * D + D * (eps + eta)"
  proof -
    have "xn * b - of_int k / real w * D = xn * (b - D) + D * (xn - of_int k / real w)"
      by (simp add: algebra_simps)
    then have "\<bar>xn * b - of_int k / real w * D\<bar> \<le>
        \<bar>xn * (b - D)\<bar> + \<bar>D * (xn - of_int k / real w)\<bar>"
      by (simp only: abs_triangle_ineq)
    also have "\<bar>xn * (b - D)\<bar> = xn * \<bar>b - D\<bar>"
      using xn0 by (simp add: abs_mult)
    also have "\<bar>D * (xn - of_int k / real w)\<bar> = D * \<bar>xn - of_int k / real w\<bar>"
      using Dpos by (simp add: abs_mult)
    also have "xn * \<bar>b - D\<bar> + D * \<bar>xn - of_int k / real w\<bar> \<le>
        1 * (2 * eps * D) + D * (eps + eta)"
      using xn0 xn1 eb e1 Dpos eps_eta_pos
      by (intro add_mono mult_mono mult_left_mono) simp_all
    finally show ?thesis by simp
  qed
  have e3: "\<bar>t - xn * b\<bar> \<le> eps * (D + 2 * eps * D) + eta"
  proof -
    have "\<bar>t - xn * b\<bar> \<le> eps * \<bar>xn * b\<bar> + eta"
      unfolding t_def b_def by (rule round_f64_err)
    moreover have b0: "0 \<le> b" using bD Dpos by linarith
    have "\<bar>xn * b\<bar> = xn * b" using xn0 b0 by simp
    moreover have "xn * b \<le> 1 * b" using xn1 b0 by (intro mult_right_mono)
    moreover have "b \<le> D + 2 * eps * D" using eb by linarith
    ultimately have "\<bar>t - xn * b\<bar> \<le> eps * \<bar>xn * b\<bar> + eta" "\<bar>xn * b\<bar> \<le> D + 2 * eps * D"
      by linarith+
    moreover from this(2) have "eps * \<bar>xn * b\<bar> \<le> eps * (D + 2 * eps * D)"
      using eps_eta_pos by (intro mult_left_mono) simp_all
    ultimately show ?thesis by linarith
  qed
  define c :: real where "c = 1 / 2 ^ 118"
  have c0: "0 \<le> c" by (simp add: c_def)
  have e4: "\<bar>of_int k / real w * D - d\<bar> \<le> D / real w + 10 * eps * D + D * c"
  proof -
    have ks: "\<bar>of_int k - s\<bar> \<le> 1 + 10 * eps * s + c"
    proof -
      have "of_int k \<le> v" "v < of_int k + 1" unfolding k_def by linarith+
      then have "\<bar>of_int k - v\<bar> \<le> 1" by linarith
      then show ?thesis using ev s0 unfolding c_def by linarith
    qed
    have "d = s / real w * D" using Dpos wpos by (simp add: s_def)
    then have "of_int k / real w * D - d = (of_int k - s) * (D / real w)"
      by (simp add: algebra_simps diff_divide_distrib)
    then have "\<bar>of_int k / real w * D - d\<bar> = \<bar>of_int k - s\<bar> * (D / real w)"
      using Dpos wpos by (simp add: abs_mult)
    also have "\<dots> \<le> (1 + 10 * eps * s + c) * (D / real w)"
      using ks Dpos wpos by (intro mult_right_mono) simp_all
    also have "\<dots> = D / real w + 10 * eps * D * (s / real w) + D * c * (1 / real w)"
      by (simp add: algebra_simps add_divide_distrib)
    also have "\<dots> \<le> D / real w + 10 * eps * D * 1 + D * c * 1"
    proof -
      have "s / real w \<le> 1" using sw wpos by simp
      then have "10 * eps * D * (s / real w) \<le> 10 * eps * D * 1"
        using Dpos eps_eta_pos by (intro mult_left_mono) simp_all
      moreover have "1 / real w \<le> 1" using w1 by simp
      then have "D * c * (1 / real w) \<le> D * c * 1"
        using Dpos c0 by (intro mult_left_mono) simp_all
      ultimately show ?thesis by linarith
    qed
    finally show ?thesis by simp
  qed
  have "\<bar>t - d\<bar> \<le> \<bar>t - xn * b\<bar> + \<bar>xn * b - of_int k / real w * D\<bar>
      + \<bar>of_int k / real w * D - d\<bar>"
    by (rule abs_chain3)
  then have "\<bar>t - d\<bar> \<le> eps * (D + 2 * eps * D) + eta + (2 * eps * D + D * (eps + eta))
      + (D / real w + 10 * eps * D + D * c)"
    using e3 e2 e4 by linarith
  also have "\<dots> = D / real w + D * (14 * eps + 2 * eps * eps + eta + c) + eta"
    by (simp add: algebra_simps)
  also have "\<dots> \<le> D / real w + D * (16 * eps) + eta"
  proof -
    have "14 * eps + 2 * eps * eps + eta + c \<le> 16 * eps"
      by (simp add: eps_def eta_def c_def)
    then have "D * (14 * eps + 2 * eps * eps + eta + c) \<le> D * (16 * eps)"
      using Dpos by (intro mult_left_mono) simp_all
    then show ?thesis by linarith
  qed
  finally show "\<bar>t - d\<bar> \<le> D / real w + 16 * eps * D + eta"
    unfolding t_def xn_def b_def k_def by (simp add: algebra_simps)
qed

lemma pow_le_1023: "n \<le> 1023 \<Longrightarrow> \<bar>x\<bar> \<le> 2 ^ n \<Longrightarrow> \<bar>x\<bar> \<le> (2::real) ^ 1023"
proof -
  assume "n \<le> 1023" "\<bar>x\<bar> \<le> 2 ^ n"
  moreover from this(1) have "(2::real) ^ n \<le> 2 ^ 1023"
    by (intro power_increasing) simp_all
  ultimately show ?thesis by linarith
qed

lemma float_of_nat_exact:
  assumes "n < 2 ^ 53"
  shows "float_of_nat n = Inr (Fin (real n))"
proof -
  have "\<bar>real n\<bar> \<le> 2 ^ 53" using assms by simp
  then have "\<bar>real n\<bar> \<le> 2 ^ 1023" by (rule pow_le_1023 [rotated]) simp
  then have "fl (real n) = Fin (round_f64 (real n))" by (rule fl_Fin)
  then show ?thesis
    by (simp add: float_of_nat_def round_f64_nat [OF assms])
qed

lemma axis_scaled:
  fixes d D :: real and w :: nat
  assumes d: "\<bar>d\<bar> \<le> 2 ^ 401" and D: "1 / 2 ^ 400 \<le> D" "D \<le> 2 ^ 401" and w: "w < 2 ^ 53"
  defines "q \<equiv> round_f64 (round_f64 d / round_f64 D)"
  shows "float_truediv (fl d) (fl D) = Inr (Fin q)"
    and "float_mul_nat (Fin q) w = Inr (Fin (round_f64 (q * real w)))"
    and "fl D = Fin (round_f64 D)"
    and "D / 2 \<le> round_f64 D" and "round_f64 D \<le> 2 ^ 401"
proof -
  have w': "0 \<le> real w" "real w \<le> 2 ^ 53" using w by simp_all
  have D900: "1 / 2 ^ 900 \<le> D"
  proof -
    have "(1::real) / 2 ^ 900 \<le> 1 / 2 ^ 400" by simp
    then show ?thesis using D(1) by linarith
  qed
  have Dpos: "0 < D" using D(1) by (rule less_le_trans [rotated]) simp
  have b: "D / 2 \<le> round_f64 D"
    using forward_error(2) [OF D900 w'] .
  then show "D / 2 \<le> round_f64 D" .
  have bpos: "0 < round_f64 D" using b Dpos by linarith
  have blow: "1 / 2 ^ 401 \<le> round_f64 D"
  proof -
    have "(1::real) / 2 ^ 401 = 1 / 2 ^ 400 / 2" by simp
    also have "\<dots> \<le> D / 2" using D(1) by simp
    finally show ?thesis using b by linarith
  qed
  have Dabs: "\<bar>D\<bar> \<le> 2 ^ 401" using D(2) Dpos by simp
  have bup: "\<bar>round_f64 D\<bar> \<le> 2 ^ 401" using Dabs by (rule round_f64_abs_le_pow2)
  then show "round_f64 D \<le> 2 ^ 401" by linarith
  have aup: "\<bar>round_f64 d\<bar> \<le> 2 ^ 401" using d by (rule round_f64_abs_le_pow2)
  have fd: "fl d = Fin (round_f64 d)"
    by (rule fl_Fin, rule pow_le_1023 [OF _ d]) simp
  show fD: "fl D = Fin (round_f64 D)"
    by (rule fl_Fin, rule pow_le_1023 [OF _ Dabs]) simp
  have quot: "\<bar>round_f64 d / round_f64 D\<bar> \<le> 2 ^ 802"
  proof -
    have "\<bar>round_f64 d / round_f64 D\<bar> = \<bar>round_f64 d\<bar> / round_f64 D"
      using bpos by simp
    also have "\<dots> \<le> 2 ^ 401 / round_f64 D"
      using aup bpos by (intro divide_right_mono) simp_all
    also have "\<dots> \<le> 2 ^ 401 / (1 / 2 ^ 401)"
      using blow by (intro divide_left_mono) simp_all
    also have "\<dots> = 2 ^ 802"
      by (simp add: power_add [symmetric])
    finally show ?thesis .
  qed
  have fq: "fl (round_f64 d / round_f64 D) = Fin q"
    unfolding q_def by (rule fl_Fin, rule pow_le_1023 [OF _ quot]) simp
  show "float_truediv (fl d) (fl D) = Inr (Fin q)"
    using bpos by (simp add: fd fD float_truediv_def fq)
  have qabs: "\<bar>q\<bar> \<le> 2 ^ 802"
    unfolding q_def using quot by (rule round_f64_abs_le_pow2)
  have "\<bar>q * real w\<bar> = \<bar>q\<bar> * real w" by (simp add: abs_mult)
  also have "\<dots> \<le> 2 ^ 802 * 2 ^ 53"
    using qabs w' by (intro mult_mono) simp_all
  also have "\<dots> = 2 ^ 855" by (simp add: power_add [symmetric])
  finally have "\<bar>q * real w\<bar> \<le> 2 ^ 855" .
  then have "fl (q * real w) = Fin (round_f64 (q * real w))"
    by (intro fl_Fin pow_le_1023 [of 855]) simp_all
  then show "float_mul_nat (Fin q) w = Inr (Fin (round_f64 (q * real w)))"
    by (simp add: float_mul_nat_def float_of_nat_exact [OF w])
qed

lemma geo_rangeD:
  assumes "geo_range lo hi"
  shows "1 / 2 ^ 400 \<le> hi - lo" and "hi - lo \<le> 2 ^ 401"
    and "\<bar>lo\<bar> \<le> 2 ^ 400" and "\<bar>hi\<bar> \<le> 2 ^ 400"
proof -
  have r: "- (2 ^ 400) \<le> lo" "hi \<le> 2 ^ 400" "1 / 2 ^ 400 \<le> hi - lo"
    using assms by (simp_all add: geo_range_def)
  show "1 / 2 ^ 400 \<le> hi - lo" by fact
  have pos: "(0::real) < 1 / 2 ^ 400" by simp
  have "(2::real) ^ 401 = 2 ^ 400 + 2 ^ 400" by simp
  then show "hi - lo \<le> 2 ^ 401" using r by linarith
  show "\<bar>lo\<bar> \<le> 2 ^ 400" "\<bar>hi\<bar> \<le> 2 ^ 400" using r pos by linarith+
qed

lemma diff_range:
  assumes "\<bar>x\<bar> \<le> 2 ^ 400" and "\<bar>y\<bar> \<le> 2 ^ 400"
  shows "\<bar>x - y\<bar> \<le> (2::real) ^ 401"
proof -
  have "(2::real) ^ 401 = 2 ^ 400 + 2 ^ 400" by simp
  then show ?thesis using assms by linarith
qed

lemma fsub_Fin [simp]: "fsub (Fin x) (Fin y) = fl (x - y)"
  by (simp add: fsub_def)

lemma latlon_to_pixel_computed:
  assumes lon: "geo_range min_lon max_lon" and lat: "geo_range min_lat max_lat"
    and p: "\<bar>lon\<bar> \<le> 2 ^ 400" "\<bar>lat\<bar> \<le> 2 ^ 400"
    and w: "w < 2 ^ 53" and h: "h < 2 ^ 53"
  defines "vx \<equiv> round_f64 (round_f64 (round_f64 (lon - min_lon) / round_f64 (max_lon - min_lon))
                   * real w)"
  defines "vy \<equiv> round_f64 (round_f64 (round_f64 (max_lat - lat) / round_f64 (max_lat - min_lat))
                   * real h)"
  shows "latlon_to_pixel lat lon min_lat max_lat min_lon max_lon h w = Inr (py_int vx, py_int vy)"
proof -
  note rx = geo_rangeD [OF lon] and ry = geo_rangeD [OF lat]
  have dx: "\<bar>lon - min_lon\<bar> \<le> 2 ^ 401" using p(1) rx(3) by (rule diff_range)
  have dy: "\<bar>max_lat - lat\<bar> \<le> 2 ^ 401" using ry(4) p(2) by (rule diff_range)
  note ax = axis_scaled(1,2) [OF dx rx(1,2) w]
  note ay = axis_scaled(1,2) [OF dy ry(1,2) h]
  show ?thesis
    by (simp add: latlon_to_pixel_def ax ay vx_def vy_def)
qed

lemma back_axis:
  fixes D :: real and w :: nat and k :: int
  assumes k: "0 \<le> k" "k \<le> int w" and w: "0 < w"
    and D: "1 / 2 ^ 400 \<le> D" "D \<le> 2 ^ 401"
  defines "xn \<equiv> round_f64 (of_int k / real w)"
  defines "t \<equiv> round_f64 (xn * round_f64 D)"
  shows "truediv (PyInt k) w = Inr (Fin xn)"
    and "fmul (Fin xn) (fl D) = Fin t"
    and "\<bar>t\<bar> \<le> 2 ^ 401"
proof -
  have wpos: "0 < real w" using w by simp
  have kr0: "0 \<le> (of_int k :: real)" using k(1) by simp
  have krw: "(of_int k :: real) \<le> real w"
    using k(2) by (metis of_int_le_iff of_int_of_nat_eq)
  have kq0: "0 \<le> of_int k / real w" using kr0 wpos by simp
  have kq1: "of_int k / real w \<le> 1" using krw wpos by simp
  have xn: "0 \<le> xn" "xn \<le> 1"
    unfolding xn_def using round_f64_unit [OF kq0 kq1] .
  have "\<bar>of_int k / real w\<bar> \<le> 2 ^ 0" using kq0 kq1 by simp
  then have "fl (of_int k / real w) = Fin xn"
    unfolding xn_def by (intro fl_Fin pow_le_1023 [of 0]) simp_all
  then show "truediv (PyInt k) w = Inr (Fin xn)"
    using w by (simp add: truediv_def)
  note ax = axis_scaled(3,4,5) [OF _ D, of 0 0]
  have b: "fl D = Fin (round_f64 D)" "D / 2 \<le> round_f64 D" "round_f64 D \<le> 2 ^ 401"
    using ax by simp_all
  have Dpos: "0 < D" using D(1) by (rule less_le_trans [rotated]) simp
  have b0: "0 \<le> round_f64 D" using b(2) Dpos by linarith
  have "0 \<le> xn * round_f64 D" using xn(1) b0 by simp
  moreover have "xn * round_f64 D \<le> 1 * round_f64 D"
    using xn(2) b0 by (intro mult_right_mono)
  ultimately have prod: "\<bar>xn * round_f64 D\<bar> \<le> 2 ^ 401"
    using b(3) by simp
  then show "\<bar>t\<bar> \<le> 2 ^ 401"
    unfolding t_def by (rule round_f64_abs_le_pow2)
  have "fl (xn * round_f64 D) = Fin t"
    unfolding t_def by (rule fl_Fin, rule pow_le_1023 [OF _ prod]) simp
  then show "fmul (Fin xn) (fl D) = Fin t"
    by (simp add: b(1))
qed

lemma sum_range:
  assumes "\<bar>c\<bar> \<le> 2 ^ 400" and "\<bar>t\<bar> \<le> 2 ^ 401"
  shows "fadd (Fin c) (Fin t) = Fin (round_f64 (c + t))"
    and "fsub (Fin c) (Fin t) = Fin (round_f64 (c - t))"
proof -
  have "(2::real) ^ 401 = 2 ^ 400 + 2 ^ 400" "(2::real) ^ 402 = 2 ^ 401 + 2 ^ 401" by simp_all
  then have "\<bar>c + t\<bar> \<le> 2 ^ 402" "\<bar>c - t\<bar> \<le> 2 ^ 402"
    using assms by linarith+
  then have "fl (c + t) = Fin (round_f64 (c + t))" "fl (c - t) = Fin (round_f64 (c - t))"
    by (intro fl_Fin pow_le_1023 [of 402]; simp)+
  then show "fadd (Fin c) (Fin t) = Fin (round_f64 (c + t))"
    and "fsub (Fin c) (Fin t) = Fin (round_f64 (c - t))"
    by simp_all
qed

lemma final_round:
  fixes c t d D lo hi :: real and w :: nat
  assumes e: "\<bar>t - d\<bar> \<le> D / real w + 16 * eps * D + eta"
    and d: "\<bar>d\<bar> \<le> D" and D: "1 / 2 ^ 400 \<le> D" "D \<le> \<bar>lo\<bar> + \<bar>hi\<bar>"
    and c: "\<bar>c\<bar> \<le> \<bar>lo\<bar> + \<bar>hi\<bar>" and w: "0 < w"
  shows "\<bar>round_f64 (c + t) - (c + d)\<bar> \<le> D / real w + (\<bar>lo\<bar> + \<bar>hi\<bar>) / 2 ^ 48"
proof -
  define B where "B = \<bar>lo\<bar> + \<bar>hi\<bar>"
  have Dpos: "0 < D" using D(1) by (rule less_le_trans [rotated]) simp
  have w1: "1 \<le> real w" using w by simp
  have Dw: "D / real w \<le> D"
    using Dpos w1 by (simp add: divide_le_eq mult_le_cancel_left1)
  have eta_le: "eta \<le> eps * D"
  proof -
    have "eps * (1 / 2 ^ 400) \<le> eps * D"
      using D(1) by (intro mult_left_mono) (simp_all add: eps_def)
    moreover have "eta \<le> eps * (1 / 2 ^ 400)" by (simp add: eps_def eta_def)
    ultimately show ?thesis by linarith
  qed
  have eD: "eps * D \<le> D / 16"
    using Dpos by (simp add: eps_def)
  have tabs: "\<bar>t\<bar> \<le> 4 * D"
    using e d Dw eta_le eD by linarith
  have "\<bar>round_f64 (c + t) - (c + t)\<bar> \<le> eps * \<bar>c + t\<bar> + eta"
    by (rule round_f64_err)
  moreover have "eps * \<bar>c + t\<bar> \<le> eps * (B + 4 * D)"
    using c tabs eps_eta_pos unfolding B_def by (intro mult_left_mono) linarith+
  ultimately have "\<bar>round_f64 (c + t) - (c + d)\<bar> \<le>
      eps * (B + 4 * D) + eta + (D / real w + 16 * eps * D + eta)"
    using e by linarith
  also have "\<dots> = D / real w + (eps * B + 20 * (eps * D) + 2 * eta)"
    by (simp add: algebra_simps)
  also have "\<dots> \<le> D / real w + (eps * B + 22 * (eps * D))"
    using eta_le by linarith
  also have "\<dots> \<le> D / real w + 23 * (eps * B)"
  proof -
    have "eps * D \<le> eps * B"
      using D(2) eps_eta_pos unfolding B_def by (intro mult_left_mono) simp_all
    then show ?thesis by linarith
  qed
  also have "\<dots> \<le> D / real w + B / 2 ^ 48"
  proof -
    have "0 \<le> B" by (simp add: B_def)
    then have "23 * (eps * B) \<le> B / 2 ^ 48" by (simp add: eps_def)
    then show ?thesis by linarith
  qed
  finally show ?thesis unfolding B_def .
qed

lemma roundtrip_axis:
  fixes d D c lo hi :: real and w :: nat
  assumes D: "1 / 2 ^ 400 \<le> D" "D \<le> 2 ^ 401" "D \<le> \<bar>lo\<bar> + \<bar>hi\<bar>"
    and d: "0 \<le> d" "d \<le> D" and w: "0 < w" "w < 2 ^ 53"
    and c: "\<bar>c\<bar> \<le> 2 ^ 400" "\<bar>c\<bar> \<le> \<bar>lo\<bar> + \<bar>hi\<bar>"
  defines "v \<equiv> round_f64 (round_f64 (round_f64 d / round_f64 D) * real w)"
  shows "\<exists>xn t. truediv (PyInt (py_int v)) w = Inr (Fin xn) \<and>
           fmul (Fin xn) (fl D) = Fin t \<and>
           fadd (Fin c) (Fin t) = Fin (round_f64 (c + t)) \<and>
           fsub (Fin c) (Fin t) = Fin (round_f64 (c - t)) \<and>
           \<bar>round_f64 (c + t) - (c + d)\<bar> \<le> D / real w + (\<bar>lo\<bar> + \<bar>hi\<bar>) / 2 ^ 48 \<and>
           \<bar>round_f64 (c - t) - (c - d)\<bar> \<le> D / real w + (\<bar>lo\<bar> + \<bar>hi\<bar>) / 2 ^ 48"
proof -
  have D900: "1 / 2 ^ 900 \<le> D"
  proof -
    have "(1::real) / 2 ^ 900 \<le> 1 / 2 ^ 400" by simp
    then show ?thesis using D(1) by linarith
  qed
  define xn where "xn = round_f64 (of_int \<lfloor>v\<rfloor> / real w)"
  define t where "t = round_f64 (xn * round_f64 D)"
  note core = roundtrip_core [OF D900 d w]
  have k: "0 \<le> \<lfloor>v\<rfloor>" "\<lfloor>v\<rfloor> \<le> int w"
    unfolding v_def using core(1,2) by simp_all
  have e: "\<bar>t - d\<bar> \<le> D / real w + 16 * eps * D + eta"
    unfolding t_def xn_def v_def using core(5) by simp
  have v0: "0 \<le> v" using k(1) by simp
  have pv: "py_int v = \<lfloor>v\<rfloor>" using v0 by (simp add: py_int_def)
  note bk = back_axis [OF k w(1) D(1,2)]
  have td: "truediv (PyInt (py_int v)) w = Inr (Fin xn)"
    unfolding pv xn_def using bk(1) .
  have fm: "fmul (Fin xn) (fl D) = Fin t"
    unfolding t_def xn_def using bk(2) .
  have tabs: "\<bar>t\<bar> \<le> 2 ^ 401"
    unfolding t_def xn_def using bk(3) .
  note sums = sum_range [OF c(1) tabs]
  have dabs: "\<bar>d\<bar> \<le> D" using d by simp
  have e': "\<bar>- t - (- d)\<bar> \<le> D / real w + 16 * eps * D + eta"
    using e by simp
  have dabs': "\<bar>- d\<bar> \<le> D" using d by simp
  have r1: "\<bar>round_f64 (c + t) - (c + d)\<bar> \<le> D / real w + (\<bar>lo\<bar> + \<bar>hi\<bar>) / 2 ^ 48"
    using final_round [OF e dabs D(1,3) c(2) w(1)] .
  have r2: "\<bar>round_f64 (c - t) - (c - d)\<bar> \<le> D / real w + (\<bar>lo\<bar> + \<bar>hi\<bar>) / 2 ^ 48"
    using final_round [OF e' dabs' D(1,3) c(2) w(1)] by simp
  show ?thesis
    using td fm sums r1 r2 by blast
qed

section \<open>Projection\<close>

text \<open>
  C3 (as the code has it). For a bounding box in the analysed range, a point of magnitude at
  most \<open>2^400\<close> and an image with sides below \<open>2^53\<close>, the projection returns, and its
  result is the truncation toward zero by \<open>int\<close> of the two computed scaled coordinates.
  Each computed coordinate differs from the exact scaled normalised coordinate
  \<open>(lon - minLon) / (maxLon - minLon) * width\<close>, respectively
  \<open>(maxLat - lat) / (maxLat - minLat) * height\<close>, by at most \<open>2^-49\<close> of its magnitude plus
  \<open>2^-118\<close>. The result is not the nearest integer.
\<close>

theorem latlon_to_pixel_truncates_computed:
  assumes "geo_range min_lon max_lon" and "geo_range min_lat max_lat"
    and "\<bar>lon\<bar> \<le> 2 ^ 400" and "\<bar>lat\<bar> \<le> 2 ^ 400"
    and "w < 2 ^ 53" and "h < 2 ^ 53"
  shows "\<exists>vx vy.
           latlon_to_pixel lat lon min_lat max_lat min_lon max_lon h w
             = Inr (py_int vx, py_int vy) \<and>
           \<bar>vx - (lon - min_lon) / (max_lon - min_lon) * real w\<bar>
             \<le> \<bar>(lon - min_lon) / (max_lon - min_lon) * real w\<bar> / 2 ^ 49 + 1 / 2 ^ 118 \<and>
           \<bar>vy - (max_lat - lat) / (max_lat - min_lat) * real h\<bar>
             \<le> \<bar>(max_lat - lat) / (max_lat - min_lat) * real h\<bar> / 2 ^ 49 + 1 / 2 ^ 118"
proof -
  define vx where "vx = round_f64 (round_f64 (round_f64 (lon - min_lon) /
      round_f64 (max_lon - min_lon)) * real w)"
  define vy where "vy = round_f64 (round_f64 (round_f64 (max_lat - lat) /
      round_f64 (max_lat - min_lat)) * real h)"
  have run: "latlon_to_pixel lat lon min_lat max_lat min_lon max_lon h w
      = Inr (py_int vx, py_int vy)"
    unfolding vx_def vy_def using assms by (rule latlon_to_pixel_computed)
  have small: "(1::real) / 2 ^ 900 \<le> 1 / 2 ^ 400" by simp
  have Dx: "1 / 2 ^ 900 \<le> max_lon - min_lon"
    using geo_rangeD(1) [OF assms(1)] small by linarith
  have Dy: "1 / 2 ^ 900 \<le> max_lat - min_lat"
    using geo_rangeD(1) [OF assms(2)] small by linarith
  have w: "0 \<le> real w" "real w \<le> 2 ^ 53" using assms(5) by simp_all
  have h: "0 \<le> real h" "real h \<le> 2 ^ 53" using assms(6) by simp_all
  have tighten: "10 * eps * a \<le> a / 2 ^ 49" if "0 \<le> a" for a :: real
    using that by (simp add: eps_def)
  have ex: "\<bar>vx - (lon - min_lon) / (max_lon - min_lon) * real w\<bar>
      \<le> 10 * eps * \<bar>(lon - min_lon) / (max_lon - min_lon) * real w\<bar> + 1 / 2 ^ 118"
    unfolding vx_def by (rule forward_error(1) [OF Dx w])
  have ey: "\<bar>vy - (max_lat - lat) / (max_lat - min_lat) * real h\<bar>
      \<le> 10 * eps * \<bar>(max_lat - lat) / (max_lat - min_lat) * real h\<bar> + 1 / 2 ^ 118"
    unfolding vy_def by (rule forward_error(1) [OF Dy h])
  have "\<bar>vx - (lon - min_lon) / (max_lon - min_lon) * real w\<bar>
      \<le> \<bar>(lon - min_lon) / (max_lon - min_lon) * real w\<bar> / 2 ^ 49 + 1 / 2 ^ 118"
    using ex tighten [of "\<bar>(lon - min_lon) / (max_lon - min_lon) * real w\<bar>"] by linarith
  moreover have "\<bar>vy - (max_lat - lat) / (max_lat - min_lat) * real h\<bar>
      \<le> \<bar>(max_lat - lat) / (max_lat - min_lat) * real h\<bar> / 2 ^ 49 + 1 / 2 ^ 118"
    using ey tighten [of "\<bar>(max_lat - lat) / (max_lat - min_lat) * real h\<bar>"] by linarith
  ultimately show ?thesis using run by blast
qed

theorem latlon_to_pixel_truncates_computed_witness:
  "geo_range 0 8 \<and> \<bar>3 / 4 :: real\<bar> \<le> 2 ^ 400 \<and> \<bar>4 :: real\<bar> \<le> 2 ^ 400 \<and> (8::nat) < 2 ^ 53 \<and>
   (\<exists>vx vy.
      latlon_to_pixel 4 (3 / 4) 0 8 0 8 8 8 = Inr (py_int vx, py_int vy) \<and>
      \<bar>vx - (3 / 4 - 0) / (8 - 0) * real 8\<bar>
        \<le> \<bar>(3 / 4 - 0) / (8 - 0) * real 8\<bar> / 2 ^ 49 + 1 / 2 ^ 118 \<and>
      \<bar>vy - (8 - 4) / (8 - 0) * real 8\<bar>
        \<le> \<bar>(8 - 4) / (8 - 0) * real 8\<bar> / 2 ^ 49 + 1 / 2 ^ 118)"
proof -
  have r: "geo_range 0 8" by (simp add: geo_range_def)
  have a: "\<bar>3 / 4 :: real\<bar> \<le> 2 ^ 400" "\<bar>4 :: real\<bar> \<le> 2 ^ 400" "(8::nat) < 2 ^ 53"
    by simp_all
  from latlon_to_pixel_truncates_computed [OF r r a(1,2,3,3)] r a
  show ?thesis by (intro conjI)
qed

lemma exact_3_4: "round_f64 (3 / 4) = 3 / 4"
  by (subst round_f64_up [of _ 53]) (simp_all add: round_half_even_def)

lemma exact_3_32: "round_f64 (3 / 32) = 3 / 32"
  by (subst round_f64_up [of _ 56]) (simp_all add: round_half_even_def)

lemma exact_half: "round_f64 (1 / 2) = 1 / 2"
  by (subst round_f64_up [of _ 53]) (simp_all add: round_half_even_def)

text \<open>
  The claim as the specification words it fails: in a box from 0 to 8 degrees on an image
  8 pixels wide, the longitude 0.75 scales to 0.75 (every operation is exact here), which
  the code cuts to column 0 while the nearest integer is 1.
\<close>

theorem latlon_to_pixel_not_nearest:
  "latlon_to_pixel 4 (3 / 4) 0 8 0 8 8 8 = Inr (0, 4) \<and>
   project_nearest 4 (3 / 4) 0 8 0 8 8 8 = (1, 4)"
proof -
  have a: "fl 8 = Fin 8" "fl 4 = Fin 4"
    by (rule fl_eqI, simp add: round_f64_numeral, simp)+
  have b: "fl (3 / 4) = Fin (3 / 4)" "fl (3 / 32) = Fin (3 / 32)" "fl (1 / 2) = Fin (1 / 2)"
    by (rule fl_eqI [OF exact_3_4], simp, rule fl_eqI [OF exact_3_32], simp,
        rule fl_eqI [OF exact_half], simp)
  have "latlon_to_pixel 4 (3 / 4) 0 8 0 8 8 8 = Inr (0, 4)"
    using a b
    by (simp add: latlon_to_pixel_def float_truediv_def float_mul_nat_def
        float_of_nat_def py_int_def)
  moreover have "project_nearest 4 (3 / 4) 0 8 0 8 8 8 = (1, 4)"
    by (simp add: project_nearest_def round_def)
  ultimately show ?thesis by (rule conjI)
qed

text \<open>
  C4 (as the code has it). For a bounding box in the analysed range, a point inside it
  (the edges included) and an image with positive sides below \<open>2^53\<close>, both functions
  return and the round trip gives a finite point within one pixel's angular resolution of
  the original, up to a rounding term of \<open>2^-48\<close> times the magnitude of the two edges:
  \<open>|lat' - lat| \<le> (maxLat - minLat) / height + (|minLat| + |maxLat|) / 2^48\<close> and
  \<open>|lon' - lon| \<le> (maxLon - minLon) / width + (|minLon| + |maxLon|) / 2^48\<close>.
\<close>

theorem roundtrip_within_one_pixel_rounded:
  assumes "geo_range min_lon max_lon" and "geo_range min_lat max_lat"
    and "min_lon \<le> lon" and "lon \<le> max_lon" and "min_lat \<le> lat" and "lat \<le> max_lat"
    and "0 < w" and "w < 2 ^ 53" and "0 < h" and "h < 2 ^ 53"
  shows "\<exists>x y lat' lon'.
           latlon_to_pixel lat lon min_lat max_lat min_lon max_lon h w = Inr (x, y) \<and>
           pixel_to_latlon (PyInt x) (PyInt y) min_lat max_lat min_lon max_lon h w
             = Inr (Fin lat', Fin lon') \<and>
           \<bar>lat' - lat\<bar> \<le> (max_lat - min_lat) / real h + (\<bar>min_lat\<bar> + \<bar>max_lat\<bar>) / 2 ^ 48 \<and>
           \<bar>lon' - lon\<bar> \<le> (max_lon - min_lon) / real w + (\<bar>min_lon\<bar> + \<bar>max_lon\<bar>) / 2 ^ 48"
proof -
  note rx = geo_rangeD [OF assms(1)] and ry = geo_rangeD [OF assms(2)]
  define vx where "vx = round_f64 (round_f64 (round_f64 (lon - min_lon) /
      round_f64 (max_lon - min_lon)) * real w)"
  define vy where "vy = round_f64 (round_f64 (round_f64 (max_lat - lat) /
      round_f64 (max_lat - min_lat)) * real h)"
  have lon: "\<bar>lon\<bar> \<le> 2 ^ 400" using assms(3,4) rx(3,4) by linarith
  have lat: "\<bar>lat\<bar> \<le> 2 ^ 400" using assms(5,6) ry(3,4) by linarith
  have fwd: "latlon_to_pixel lat lon min_lat max_lat min_lon max_lon h w
      = Inr (py_int vx, py_int vy)"
    unfolding vx_def vy_def
    using assms(1,2) lon lat assms(8,10) by (rule latlon_to_pixel_computed)
  have Bx: "max_lon - min_lon \<le> \<bar>min_lon\<bar> + \<bar>max_lon\<bar>" "\<bar>min_lon\<bar> \<le> \<bar>min_lon\<bar> + \<bar>max_lon\<bar>"
    by linarith+
  have By: "max_lat - min_lat \<le> \<bar>min_lat\<bar> + \<bar>max_lat\<bar>" "\<bar>max_lat\<bar> \<le> \<bar>min_lat\<bar> + \<bar>max_lat\<bar>"
    by linarith+
  have dx: "0 \<le> lon - min_lon" "lon - min_lon \<le> max_lon - min_lon"
    using assms(3,4) by simp_all
  have dy: "0 \<le> max_lat - lat" "max_lat - lat \<le> max_lat - min_lat"
    using assms(5,6) by simp_all
  from roundtrip_axis [OF rx(1,2) Bx(1) dx assms(7,8) rx(3) Bx(2)]
  obtain xn tx where x: "truediv (PyInt (py_int vx)) w = Inr (Fin xn)"
    "fmul (Fin xn) (fl (max_lon - min_lon)) = Fin tx"
    "fadd (Fin min_lon) (Fin tx) = Fin (round_f64 (min_lon + tx))"
    "\<bar>round_f64 (min_lon + tx) - (min_lon + (lon - min_lon))\<bar>
       \<le> (max_lon - min_lon) / real w + (\<bar>min_lon\<bar> + \<bar>max_lon\<bar>) / 2 ^ 48"
    unfolding vx_def by blast
  from roundtrip_axis [OF ry(1,2) By(1) dy assms(9,10) ry(4) By(2)]
  obtain yn ty where y: "truediv (PyInt (py_int vy)) h = Inr (Fin yn)"
    "fmul (Fin yn) (fl (max_lat - min_lat)) = Fin ty"
    "fsub (Fin max_lat) (Fin ty) = Fin (round_f64 (max_lat - ty))"
    "\<bar>round_f64 (max_lat - ty) - (max_lat - (max_lat - lat))\<bar>
       \<le> (max_lat - min_lat) / real h + (\<bar>min_lat\<bar> + \<bar>max_lat\<bar>) / 2 ^ 48"
    unfolding vy_def by blast
  have bwd: "pixel_to_latlon (PyInt (py_int vx)) (PyInt (py_int vy))
      min_lat max_lat min_lon max_lon h w
      = Inr (Fin (round_f64 (max_lat - ty)), Fin (round_f64 (min_lon + tx)))"
    unfolding pixel_to_latlon_def fsub_Fin x(1) y(1) Let_def
    using x(2,3) y(2,3) by simp
  have ex: "\<bar>round_f64 (min_lon + tx) - lon\<bar>
       \<le> (max_lon - min_lon) / real w + (\<bar>min_lon\<bar> + \<bar>max_lon\<bar>) / 2 ^ 48"
    using x(4) by simp
  have ey: "\<bar>round_f64 (max_lat - ty) - lat\<bar>
       \<le> (max_lat - min_lat) / real h + (\<bar>min_lat\<bar> + \<bar>max_lat\<bar>) / 2 ^ 48"
    using y(4) by simp
  show ?thesis
    using fwd bwd ex ey by blast
qed

theorem roundtrip_within_one_pixel_rounded_witness:
  "geo_range 0 50 \<and> (0::real) \<le> 29 \<and> (29::real) \<le> 50 \<and> (0::real) \<le> 25 \<and> (25::real) \<le> 50 \<and>
   (0::nat) < 100 \<and> (100::nat) < 2 ^ 53 \<and>
   (\<exists>x y lat' lon'.
      latlon_to_pixel 25 29 0 50 0 50 100 100 = Inr (x, y) \<and>
      pixel_to_latlon (PyInt x) (PyInt y) 0 50 0 50 100 100 = Inr (Fin lat', Fin lon') \<and>
      \<bar>lat' - 25\<bar> \<le> (50 - 0) / real 100 + (\<bar>0\<bar> + \<bar>50\<bar>) / 2 ^ 48 \<and>
      \<bar>lon' - 29\<bar> \<le> (50 - 0) / real 100 + (\<bar>0\<bar> + \<bar>50\<bar>) / 2 ^ 48)"
proof -
  have r: "geo_range 0 50" by (simp add: geo_range_def)
  have a: "(0::real) \<le> 29" "(29::real) \<le> 50" "(0::real) \<le> 25" "(25::real) \<le> 50"
    "(0::nat) < 100" "(100::nat) < 2 ^ 53"
    by simp_all
  from roundtrip_within_one_pixel_rounded [OF r r a(1,2,3,4) a(5,6) a(5,6)] r a
  show ?thesis by (intro conjI)
qed

lemma f64_029: "round_f64 (29 / 50) = 5224175567749775 / 2 ^ 53"
  by (subst round_f64_up [of _ 53]) (simp_all add: round_half_even_def)

lemma f64_058: "round_f64 (5224175567749775 / 2 ^ 53 * 100) = 8162774324609023 / 2 ^ 47"
  by (subst round_f64_up [of _ 47]) (simp_all add: round_half_even_def)

lemma f64_057: "round_f64 (57 / 100) = 5134103575202365 / 2 ^ 53"
  by (subst round_f64_up [of _ 53]) (simp_all add: round_half_even_def)

lemma f64_285: "round_f64 (5134103575202365 / 2 ^ 53 * 50) = 8022036836253695 / 2 ^ 48"
  by (subst round_f64_up [of _ 48]) (simp_all add: round_half_even_def)

lemma f64_285': "round_f64 (8022036836253695 / 2 ^ 48) = 8022036836253695 / 2 ^ 48"
  by (subst round_f64_up [of _ 48]) (simp_all add: round_half_even_def)

lemma fl_small_numerals:
  "fl 25 = Fin 25" "fl 29 = Fin 29" "fl 50 = Fin 50" "fl 100 = Fin 100"
  by (rule fl_eqI, simp add: round_f64_numeral, simp)+

lemma project_25_29: "latlon_to_pixel 25 29 0 50 0 50 100 100 = Inr (57, 50)"
proof -
  have q: "fl (29 / 50) = Fin (5224175567749775 / 2 ^ 53)"
    by (rule fl_eqI [OF f64_029]) simp
  have v: "fl (5224175567749775 / 2 ^ 53 * 100) = Fin (8162774324609023 / 2 ^ 47)"
    by (rule fl_eqI [OF f64_058]) simp
  have h: "fl (1 / 2) = Fin (1 / 2)"
    by (rule fl_eqI [OF exact_half]) simp
  show ?thesis
    using fl_small_numerals q v h
    by (simp add: latlon_to_pixel_def float_truediv_def float_mul_nat_def
        float_of_nat_def py_int_def)
qed

lemma unproject_57_50:
  "pixel_to_latlon (PyInt 57) (PyInt 50) 0 50 0 50 100 100
     = Inr (Fin 25, Fin (8022036836253695 / 2 ^ 48))"
proof -
  have q: "fl (57 / 100) = Fin (5134103575202365 / 2 ^ 53)"
    by (rule fl_eqI [OF f64_057]) simp
  have v: "fl (5134103575202365 / 2 ^ 53 * 50) = Fin (8022036836253695 / 2 ^ 48)"
    by (rule fl_eqI [OF f64_285]) simp
  have v': "fl (8022036836253695 / 2 ^ 48) = Fin (8022036836253695 / 2 ^ 48)"
    by (rule fl_eqI [OF f64_285']) simp
  have h: "fl (1 / 2) = Fin (1 / 2)"
    by (rule fl_eqI [OF exact_half]) simp
  show ?thesis
    using fl_small_numerals q v v' h
    by (simp add: pixel_to_latlon_def truediv_def)
qed

text \<open>
  The claim as the specification words it fails, without the rounding term: the point
  (25, 29) lies strictly inside the box from 0 to 50 degrees; on a 100 x 100 image the
  quotient \<open>29 / 50\<close> is rounded to a double below 0.58, whose product with 100 is rounded to
  57.99999999999999 and cut to column 57. Column 57 maps back to the longitude
  28.499999999999996, which is farther from 29 than the 0.5 degrees of one pixel.
\<close>

theorem roundtrip_exceeds_one_pixel:
  "(0::real) < 29 \<and> (29::real) < 50 \<and> (0::real) < 25 \<and> (25::real) < 50 \<and>
   latlon_to_pixel 25 29 0 50 0 50 100 100 = Inr (57, 50) \<and>
   pixel_to_latlon (PyInt 57) (PyInt 50) 0 50 0 50 100 100
     = Inr (Fin 25, Fin (8022036836253695 / 2 ^ 48)) \<and>
   (50 - 0) / real 100 < \<bar>8022036836253695 / 2 ^ 48 - 29 :: real\<bar>"
  using project_25_29 unproject_57_50 by simp

text \<open>Projections used by the scenes of the later sections.\<close>

lemma fl_numeral: "numeral k < (2 ^ 53 :: nat) \<Longrightarrow> fl (numeral k) = Fin (numeral k)"
proof (rule fl_eqI)
  assume k: "numeral k < (2 ^ 53 :: nat)"
  then show "round_f64 (numeral k) = numeral k" by (rule round_f64_numeral)
  have "real (numeral k) < real (2 ^ 53)" using k by (simp only: of_nat_less_iff)
  then have "\<bar>numeral k :: real\<bar> \<le> 2 ^ 53" by simp
  then show "\<bar>numeral k :: real\<bar> \<le> 2 ^ 1023" by (rule pow_le_1023 [rotated]) simp
qed

lemma fl_neg_numeral:
  "numeral k < (2 ^ 53 :: nat) \<Longrightarrow> fl (- numeral k) = Fin (- numeral k)"
proof (rule fl_eqI)
  assume k: "numeral k < (2 ^ 53 :: nat)"
  then show "round_f64 (- numeral k) = - numeral k"
    by (simp only: round_f64_minus round_f64_numeral)
  have "real (numeral k) < real (2 ^ 53)" using k by (simp only: of_nat_less_iff)
  then have "\<bar>- numeral k :: real\<bar> \<le> 2 ^ 53" by simp
  then show "\<bar>- numeral k :: real\<bar> \<le> 2 ^ 1023" by (rule pow_le_1023 [rotated]) simp
qed

lemma fl_units: "fl 0 = Fin 0" "fl 1 = Fin 1" "fl (- 1) = Fin (- 1)"
  "fl (1 / 2) = Fin (1 / 2)" "fl (1 / 4) = Fin (1 / 4)"
proof -
  show "fl 0 = Fin 0" "fl 1 = Fin 1" by (rule fl_eqI; simp)+
  show "fl (- 1) = Fin (- 1)" by (rule fl_eqI) (simp_all add: round_f64_minus)
  show "fl (1 / 2) = Fin (1 / 2)" by (rule fl_eqI [OF exact_half]) simp
  have "round_f64 (1 / 4) = 1 / 4"
    by (subst round_f64_up [of _ 54]) (simp_all add: round_half_even_def)
  then show "fl (1 / 4) = Fin (1 / 4)" by (rule fl_eqI) simp
qed

lemma project_200: "latlon_to_pixel 200 200 0 400 0 400 400 400 = Inr (200, 200)"
  by (simp add: latlon_to_pixel_def float_truediv_def float_mul_nat_def float_of_nat_def
      py_int_def fl_numeral fl_units)

lemma project_demo: "latlon_to_pixel (3 / 2) (1 / 2) 0 2 0 2 2 2 = Inr (0, 0)"
  by (simp add: latlon_to_pixel_def float_truediv_def float_mul_nat_def float_of_nat_def
      py_int_def fl_numeral fl_units)

lemma project_outside: "latlon_to_pixel 2 (1 / 2) 0 1 0 1 1280 1280 = Inr (640, - 1280)"
  by (simp add: latlon_to_pixel_def float_truediv_def float_mul_nat_def float_of_nat_def
      py_int_def fl_numeral fl_neg_numeral fl_units)

section \<open>Street classification\<close>

lemma categorize_filter:
  "categorize rows acc =
     \<lparr>pedestrian = pedestrian acc @ filter (\<lambda>r. tier_of r = Pedestrian) rows,
      low_traffic = low_traffic acc @ filter (\<lambda>r. tier_of r = LowTraffic) rows,
      medium_traffic = medium_traffic acc @ filter (\<lambda>r. tier_of r = MediumTraffic) rows,
      high_traffic = high_traffic acc @ filter (\<lambda>r. tier_of r = HighTraffic) rows\<rparr>"
proof (induction rows arbitrary: acc)
  case Nil
  show ?case by simp
next
  case (Cons row rows)
  show ?case
    by (simp add: Cons.IH Let_def tier_of_def)
qed

lemma filter_streets_by_type_filter:
  "filter_streets_by_type rows =
     \<lparr>pedestrian = filter (\<lambda>r. tier_of r = Pedestrian) rows,
      low_traffic = filter (\<lambda>r. tier_of r = LowTraffic) rows,
      medium_traffic = filter (\<lambda>r. tier_of r = MediumTraffic) rows,
      high_traffic = filter (\<lambda>r. tier_of r = HighTraffic) rows\<rparr>"
  by (cases rows) (simp_all add: filter_streets_by_type_def categorize_filter empty_street_dict_def del: categorize.simps)


lemma four_way_lengths:
  "length (filter (\<lambda>r. tier_of r = Pedestrian) rows) + length (filter (\<lambda>r. tier_of r = LowTraffic) rows) +
   length (filter (\<lambda>r. tier_of r = MediumTraffic) rows) + length (filter (\<lambda>r. tier_of r = HighTraffic) rows)
   = length rows"
proof (induction rows)
  case Nil
  show ?case by simp
next
  case (Cons r rows)
  then show ?case by (cases "tier_of r") simp_all
qed

lemma four_way_mset:
  "mset (filter (\<lambda>r. tier_of r = Pedestrian) rows) + mset (filter (\<lambda>r. tier_of r = LowTraffic) rows) +
   mset (filter (\<lambda>r. tier_of r = MediumTraffic) rows) + mset (filter (\<lambda>r. tier_of r = HighTraffic) rows)
   = mset rows"
proof (induction rows)
  case Nil
  show ?case by simp
next
  case (Cons r rows)
  then show ?case by (cases "tier_of r") simp_all
qed

text \<open>
  C6. \<open>filter_streets_by_type\<close> is total and splits the streets four ways: the four
  output counts add up to the input count, the four outputs together are the input as a
  multiset (no street dropped or duplicated), and a street whose highway tag (the first
  value of a list) is in none of the four type lists is in the low traffic tier and in no
  other.
\<close>

theorem classify_partition:
  "(let r = filter_streets_by_type streets in
      length (pedestrian r) + length (low_traffic r) +
      length (medium_traffic r) + length (high_traffic r) = length streets \<and>
      mset (pedestrian r) + mset (low_traffic r) +
      mset (medium_traffic r) + mset (high_traffic r) = mset streets \<and>
      (\<forall>row \<in> set streets.
         \<not> py_in (get_highway_type row) PEDESTRIAN_PRIORITY_TYPES \<and>
         \<not> py_in (get_highway_type row) LOW_TRAFFIC_TYPES \<and>
         \<not> py_in (get_highway_type row) MEDIUM_TRAFFIC_TYPES \<and>
         \<not> py_in (get_highway_type row) HIGH_TRAFFIC_TYPES
         \<longrightarrow> row \<in> set (low_traffic r) \<and> row \<notin> set (pedestrian r) \<and>
             row \<notin> set (medium_traffic r) \<and> row \<notin> set (high_traffic r)))"
proof -
  define r where "r = filter_streets_by_type streets"
  have ped: "pedestrian r = filter (\<lambda>r. tier_of r = Pedestrian) streets"
    and low: "low_traffic r = filter (\<lambda>r. tier_of r = LowTraffic) streets"
    and med: "medium_traffic r = filter (\<lambda>r. tier_of r = MediumTraffic) streets"
    and high: "high_traffic r = filter (\<lambda>r. tier_of r = HighTraffic) streets"
    by (simp_all add: r_def filter_streets_by_type_filter)
  have len: "length (pedestrian r) + length (low_traffic r) +
      length (medium_traffic r) + length (high_traffic r) = length streets"
    unfolding ped low med high by (rule four_way_lengths)
  have ms: "mset (pedestrian r) + mset (low_traffic r) +
      mset (medium_traffic r) + mset (high_traffic r) = mset streets"
    unfolding ped low med high by (rule four_way_mset)
  have dflt: "row \<in> set (low_traffic r) \<and> row \<notin> set (pedestrian r) \<and>
             row \<notin> set (medium_traffic r) \<and> row \<notin> set (high_traffic r)"
    if "row \<in> set streets"
      and "\<not> py_in (get_highway_type row) PEDESTRIAN_PRIORITY_TYPES \<and>
         \<not> py_in (get_highway_type row) LOW_TRAFFIC_TYPES \<and>
         \<not> py_in (get_highway_type row) MEDIUM_TRAFFIC_TYPES \<and>
         \<not> py_in (get_highway_type row) HIGH_TRAFFIC_TYPES" for row
  proof -
    have "tier_of row = LowTraffic"
      using that(2) by (simp add: tier_of_def)
    then show ?thesis
      unfolding ped low med high using that(1) by simp
  qed
  show ?thesis
    unfolding Let_def r_def [symmetric] using len ms dflt by blast
qed

theorem classify_partition_witness:
  "\<lparr>highway = Some (HighwayList [''bridleway'', ''primary'']), geometry = 1::nat\<rparr>
     \<in> set demo_streets \<and>
   \<not> py_in (Some ''bridleway'') PEDESTRIAN_PRIORITY_TYPES \<and>
   \<not> py_in (Some ''bridleway'') LOW_TRAFFIC_TYPES \<and>
   \<not> py_in (Some ''bridleway'') MEDIUM_TRAFFIC_TYPES \<and>
   \<not> py_in (Some ''bridleway'') HIGH_TRAFFIC_TYPES \<and>
   \<lparr>highway = Some (HighwayList [''bridleway'', ''primary'']), geometry = 1::nat\<rparr>
     \<in> set (low_traffic (filter_streets_by_type demo_streets)) \<and>
   length (pedestrian (filter_streets_by_type demo_streets)) +
   length (low_traffic (filter_streets_by_type demo_streets)) +
   length (medium_traffic (filter_streets_by_type demo_streets)) +
   length (high_traffic (filter_streets_by_type demo_streets)) = 2"
proof -
  have tags:
    "\<not> py_in (Some ''bridleway'') PEDESTRIAN_PRIORITY_TYPES"
    "\<not> py_in (Some ''bridleway'') LOW_TRAFFIC_TYPES"
    "\<not> py_in (Some ''bridleway'') MEDIUM_TRAFFIC_TYPES"
    "\<not> py_in (Some ''bridleway'') HIGH_TRAFFIC_TYPES"
    by (simp_all add: py_in_def PEDESTRIAN_PRIORITY_TYPES_def LOW_TRAFFIC_TYPES_def
        MEDIUM_TRAFFIC_TYPES_def HIGH_TRAFFIC_TYPES_def)
  have tag: "get_highway_type
      \<lparr>highway = Some (HighwayList [''bridleway'', ''primary'']), geometry = 1::nat\<rparr>
      = Some ''bridleway''"
    by (simp add: get_highway_type_def)
  have mem: "\<lparr>highway = Some (HighwayList [''bridleway'', ''primary'']), geometry = 1::nat\<rparr>
     \<in> set demo_streets"
    by (simp add: demo_streets_def)
  have len: "length demo_streets = 2"
    by (simp add: demo_streets_def)
  show ?thesis
    using classify_partition [of demo_streets] tags tag mem len
    unfolding Let_def by metis
qed

section \<open>Distance-based components\<close>

lemma set_pixels: "set (pixels h w) = {(y, x). y < h \<and> x < w}"
  by (auto simp: pixels_def)

lemma np_any_iff: "np_any a \<longleftrightarrow> (\<exists>y<nrows a. \<exists>x<ncols a. cell a y x)"
  by (auto simp: np_any_def list_ex_iff set_pixels)

lemma set_true_pixels: "set (true_pixels m) = {(y, x). y < nrows m \<and> x < ncols m \<and> cell m y x}"
  by (auto simp: true_pixels_def set_pixels)

lemma np_not_sel:
  "nrows (np_not m) = nrows m" "ncols (np_not m) = ncols m"
  "cell (np_not m) y x = (\<not> cell m y x)"
  by (simp_all add: np_not_def)

lemma background_np_not: "background (np_not m) = true_pixels m"
  by (simp add: background_def true_pixels_def np_not_sel)

lemma true_pixels_nonempty: "np_any m \<Longrightarrow> true_pixels m \<noteq> []"
proof -
  assume "np_any m"
  then obtain y x where "y < nrows m" "x < ncols m" "cell m y x"
    by (auto simp: np_any_iff)
  then have "(y, x) \<in> set (true_pixels m)"
    by (simp add: set_true_pixels)
  then show ?thesis by auto
qed

lemma edt_np_not:
  assumes "np_any m"
  shows "distance_transform_edt (np_not m) =
           Some \<lparr>nrows = nrows m, ncols = ncols m,
                 cell = \<lambda>y x. if \<not> cell m y x then nearest_true m (y, x) else 0\<rparr>"
  unfolding distance_transform_edt_def background_np_not nearest_true_def
  using true_pixels_nonempty [OF assms] by (simp add: np_not_sel)

lemma euclid_nonneg: "0 \<le> euclid p q"
  by (simp add: euclid_def)

lemma euclid_zero_iff: "euclid p q = 0 \<longleftrightarrow> p = q"
proof -
  have "euclid p q = 0 \<longleftrightarrow> (real_of_int (int (fst p) - int (fst q)))\<^sup>2 +
           (real_of_int (int (snd p) - int (snd q)))\<^sup>2 = 0"
    by (simp add: euclid_def add_nonneg_eq_0_iff)
  also have "\<dots> \<longleftrightarrow> fst p = fst q \<and> snd p = snd q"
    by (simp add: add_nonneg_eq_0_iff)
  finally show ?thesis by (simp add: prod_eq_iff)
qed

lemma nearest_true_nonneg:
  assumes "np_any m" shows "0 \<le> nearest_true m p"
proof -
  have ne: "set (map (euclid p) (true_pixels m)) \<noteq> {}"
    using true_pixels_nonempty [OF assms] by simp
  show ?thesis
    unfolding nearest_true_def using ne by (subst Min_ge_iff) (auto simp: euclid_nonneg)
qed

lemma nearest_true_zero_iff:
  assumes "np_any m" and "y < nrows m" and "x < ncols m"
  shows "nearest_true m (y, x) = 0 \<longleftrightarrow> cell m y x"
proof
  assume z: "nearest_true m (y, x) = 0"
  have ne: "set (map (euclid (y, x)) (true_pixels m)) \<noteq> {}"
    using true_pixels_nonempty [OF assms(1)] by simp
  have "Min (set (map (euclid (y, x)) (true_pixels m))) \<in> set (map (euclid (y, x)) (true_pixels m))"
    using ne by (intro Min_in) simp_all
  then obtain q where q: "q \<in> set (true_pixels m)" "euclid (y, x) q = 0"
    using z unfolding nearest_true_def by auto
  then have "q = (y, x)" by (simp add: euclid_zero_iff)
  with q(1) show "cell m y x" by (simp add: set_true_pixels)
next
  assume c: "cell m y x"
  then have "(y, x) \<in> set (true_pixels m)"
    using assms by (simp add: set_true_pixels)
  then have "euclid (y, x) (y, x) \<in> set (map (euclid (y, x)) (true_pixels m))"
    by simp
  then have "nearest_true m (y, x) \<le> euclid (y, x) (y, x)"
    unfolding nearest_true_def by (intro Min_le) simp_all
  then have "nearest_true m (y, x) \<le> 0" by (simp add: euclid_zero_iff[THEN iffD2])
  with nearest_true_nonneg [OF assms(1), of "(y, x)"] show "nearest_true m (y, x) = 0" by simp
qed

lemma calculate_building_priority_cells:
  assumes "np_any m"
  shows "\<exists>s. calculate_building_priority m = Inr s \<and> nrows s = nrows m \<and> ncols s = ncols m \<and>
     (\<forall>y x. cell s y x =
        (let d = (if \<not> cell m y x then nearest_true m (y, x) else 0) * (6 / 10)
         in if 30 < d then 5 else if 0 < d \<and> d < 5 then 10
            else if 15 < d \<and> d \<le> 30 then 15 else if 5 \<le> d \<and> d \<le> 15 then 25 else 0))"
  using assms
  by (simp add: calculate_building_priority_def edt_np_not Let_def assign_where_def np_map_def np_full_def)

lemma calculate_sidewalk_priority_cells:
  assumes "np_any m"
  shows "\<exists>s. calculate_sidewalk_priority m = Inr s \<and> nrows s = nrows m \<and> ncols s = ncols m \<and>
     (\<forall>y x. cell s y x =
        (let d = (if \<not> cell m y x then nearest_true m (y, x) else 0)
         in if 50 < d then 5 else if 20 < d \<and> d \<le> 50 then 20
            else if d \<le> 20 then 35 else 0))"
  using assms
  by (simp add: calculate_sidewalk_priority_def edt_np_not Let_def assign_where_def np_map_def np_full_def)

text \<open>
  C5. For a building mask with at least one true pixel the building-cooling component
  is returned with the shape of the mask, and at each pixel of the grid it is determined by
  the Euclidean distance in pixels to the nearest building pixel, converted to meters at
  0.6 m per pixel: 25 in \<open>[5, 15]\<close>, 15 in \<open>(15, 30]\<close>, 10 in \<open>(0, 5)\<close>, 5 above 30 and 0 at
  distance 0, which is the case exactly for the pixels of a building.
\<close>

theorem building_component_tiers:
  assumes "np_any building"
  shows "\<exists>s. calculate_building_priority building = Inr s \<and>
           nrows s = nrows building \<and> ncols s = ncols building \<and>
           (\<forall>y<nrows building. \<forall>x<ncols building.
              let d = nearest_true building (y, x) * (6 / 10)
              in (5 \<le> d \<and> d \<le> 15 \<longrightarrow> cell s y x = 25) \<and>
                 (15 < d \<and> d \<le> 30 \<longrightarrow> cell s y x = 15) \<and>
                 (0 < d \<and> d < 5 \<longrightarrow> cell s y x = 10) \<and>
                 (30 < d \<longrightarrow> cell s y x = 5) \<and>
                 (d = 0 \<longrightarrow> cell s y x = 0) \<and>
                 (d = 0 \<longleftrightarrow> cell building y x))"
proof -
  obtain s where s: "calculate_building_priority building = Inr s"
    "nrows s = nrows building" "ncols s = ncols building"
    and cells: "\<And>y x. cell s y x =
        (let d = (if \<not> cell building y x then nearest_true building (y, x) else 0) * (6 / 10)
         in if 30 < d then 5 else if 0 < d \<and> d < 5 then 10
            else if 15 < d \<and> d \<le> 30 then 15 else if 5 \<le> d \<and> d \<le> 15 then 25 else 0)"
    using calculate_building_priority_cells [OF assms] by blast
  have "let d = nearest_true building (y, x) * (6 / 10)
              in (5 \<le> d \<and> d \<le> 15 \<longrightarrow> cell s y x = 25) \<and>
                 (15 < d \<and> d \<le> 30 \<longrightarrow> cell s y x = 15) \<and>
                 (0 < d \<and> d < 5 \<longrightarrow> cell s y x = 10) \<and>
                 (30 < d \<longrightarrow> cell s y x = 5) \<and>
                 (d = 0 \<longrightarrow> cell s y x = 0) \<and>
                 (d = 0 \<longleftrightarrow> cell building y x)"
    if "y < nrows building" "x < ncols building" for y x
  proof -
    have z: "nearest_true building (y, x) = 0 \<longleftrightarrow> cell building y x"
      using nearest_true_zero_iff [OF assms that] .
    show ?thesis
      unfolding Let_def cells using z by auto
  qed
  with s show ?thesis by blast
qed


lemma true_pixels_demo_mask: "true_pixels demo_mask = [(0, 0)]"
  by (simp add: true_pixels_def demo_mask_def pixels_def upt_rec)

lemma np_any_demo_mask: "np_any demo_mask"
  by (simp add: np_any_iff demo_mask_def)

lemma nearest_demo: "nearest_true demo_mask (0, Suc 0) = 1" "nearest_true demo_mask (0, 0) = 0"
  by (simp_all add: nearest_true_def true_pixels_demo_mask euclid_def)

theorem building_component_tiers_witness:
  "np_any demo_mask \<and>
   (\<exists>s. calculate_building_priority demo_mask = Inr s \<and> cell s 0 1 = 10 \<and> cell s 0 0 = 0)"
proof -
  obtain s where s: "calculate_building_priority demo_mask = Inr s"
    and cells: "\<forall>y<nrows demo_mask. \<forall>x<ncols demo_mask.
              let d = nearest_true demo_mask (y, x) * (6 / 10)
              in (5 \<le> d \<and> d \<le> 15 \<longrightarrow> cell s y x = 25) \<and>
                 (15 < d \<and> d \<le> 30 \<longrightarrow> cell s y x = 15) \<and>
                 (0 < d \<and> d < 5 \<longrightarrow> cell s y x = 10) \<and>
                 (30 < d \<longrightarrow> cell s y x = 5) \<and>
                 (d = 0 \<longrightarrow> cell s y x = 0) \<and>
                 (d = 0 \<longleftrightarrow> cell demo_mask y x)"
    using building_component_tiers [OF np_any_demo_mask] by blast
  have dims: "0 < nrows demo_mask" "1 < ncols demo_mask" "0 < ncols demo_mask"
    by (simp_all add: demo_mask_def)
  have "cell s 0 1 = 10"
    using cells [rule_format, OF dims(1) dims(2)] by (simp add: Let_def nearest_demo)
  moreover have "cell s 0 0 = 0"
    using cells [rule_format, OF dims(1) dims(3)] by (simp add: Let_def nearest_demo)
  ultimately show ?thesis
    using s np_any_demo_mask by blast
qed

text \<open>
  C10. For a mask without a true pixel the sidewalk-proximity component and the
  building-cooling component are both returned as arrays of the mask's shape that are zero
  everywhere, not the 5 points of the farthest distance tier.
\<close>

theorem empty_mask_components_zero:
  assumes "\<forall>y<nrows m. \<forall>x<ncols m. \<not> cell m y x"
  shows "\<exists>s b. calculate_sidewalk_priority m = Inr s \<and>
               calculate_building_priority m = Inr b \<and>
               nrows s = nrows m \<and> ncols s = ncols m \<and>
               nrows b = nrows m \<and> ncols b = ncols m \<and>
               (\<forall>y x. cell s y x = 0 \<and> cell b y x = 0)"
proof -
  have "\<not> np_any m"
    using assms by (simp add: np_any_iff)
  then show ?thesis
    by (simp add: calculate_sidewalk_priority_def calculate_building_priority_def np_full_def)
qed

theorem empty_mask_components_zero_witness:
  "\<not> np_any empty_mask \<and>
   (\<exists>s b. calculate_sidewalk_priority empty_mask = Inr s \<and>
          calculate_building_priority empty_mask = Inr b \<and>
          cell s 1 1 = 0 \<and> cell b 1 1 = 0 \<and> cell s 1 1 \<noteq> 5 \<and> cell b 1 1 \<noteq> 5)"
proof -
  have e: "\<forall>y<nrows empty_mask. \<forall>x<ncols empty_mask. \<not> cell empty_mask y x"
    by (simp add: empty_mask_def np_full_def)
  then have "\<not> np_any empty_mask"
    by (simp add: np_any_iff)
  moreover obtain s b where "calculate_sidewalk_priority empty_mask = Inr s"
      "calculate_building_priority empty_mask = Inr b" "\<forall>y x. cell s y x = 0 \<and> cell b y x = 0"
    using empty_mask_components_zero [OF e] by blast
  ultimately show ?thesis by force
qed

section \<open>Rasterisation of an empty collection\<close>

text \<open>
  C9. For an empty geometry collection \<open>create_mask\<close> and \<open>create_street_mask\<close> return
  (no exception) an all-false mask of shape \<open>(height, width)\<close> of the image together with
  the count 0, whatever the bounds, the buffer distance and the library operations are.
\<close>

theorem empty_collection_mask:
  "\<exists>m s. create_mask L [] (w, h) b = Inr (m, 0) \<and>
         create_street_mask L [] (w, h) b buffer_m = Inr (s, 0) \<and>
         nrows m = h \<and> ncols m = w \<and> nrows s = h \<and> ncols s = w \<and>
         (\<forall>y x. \<not> cell m y x \<and> \<not> cell s y x)"
  by (simp add: create_mask_def create_street_mask_def np_full_def)

section \<open>Amenity density\<close>

lemma radius_px_eq: "radius_px = 166"
  by (simp add: radius_px_def py_int_def)

lemma kernel_shape: "nrows kernel = 333" "ncols kernel = 333"
  by (simp_all add: kernel_def kernel_size_def radius_px_eq)

lemma kernel_cell:
  "cell kernel i j = falloff (sqrt (real_of_int ((int i - radius_px)\<^sup>2 + (int j - radius_px)\<^sup>2)))"
  by (simp add: kernel_def falloff_def Let_def)

lemma falloff_nonneg: "0 \<le> falloff d"
  by (simp add: falloff_def)

lemma falloff_le_1: "falloff d \<le> 1"
  by (simp add: falloff_def)

lemma falloff_0: "falloff 0 = 1"
  by (simp add: falloff_def radius_px_eq)

lemma falloff_lt_1: "0 < d \<Longrightarrow> falloff d < 1"
  by (simp add: falloff_def radius_px_eq)

lemma falloff_antimono:
  assumes "0 \<le> d" and "d \<le> e"
  shows "falloff e \<le> falloff d"
proof (cases "e \<le> real_of_int radius_px")
  case True
  then have d: "d \<le> real_of_int radius_px" using assms by simp
  have "(d / real_of_int radius_px)\<^sup>2 \<le> (e / real_of_int radius_px)\<^sup>2"
    using assms by (intro power_mono divide_right_mono) (simp_all add: radius_px_eq)
  then show ?thesis using True d by (simp add: falloff_def)
next
  case False
  then show ?thesis by (simp add: falloff_def)
qed

lemma falloff_beyond: "real_of_int radius_px < d \<Longrightarrow> falloff d = 0"
  by (simp add: falloff_def)

lemma py_slice_proper:
  assumes "0 \<le> a" and "a \<le> b" and "b \<le> int n"
  shows "py_slice n a b = (nat a, nat (b - a))"
  using assms by (auto simp: py_slice_def slice_index_def Let_def min_def)

lemma iadd_slice_proper:
  assumes "0 \<le> ys" "ys \<le> ye" "ye \<le> int (nrows a)"
    and "0 \<le> xs" "xs \<le> xe" "xe \<le> int (ncols a)"
    and "0 \<le> kys" "kys \<le> kye" "kye \<le> int (nrows k)"
    and "0 \<le> kxs" "kxs \<le> kxe" "kxe \<le> int (ncols k)"
    and "kye - kys = ye - ys" "kxe - kxs = xe - xs"
  shows "\<exists>a'. iadd_slice a (ys, ye) (xs, xe) k (kys, kye) (kxs, kxe) = Inr a' \<and>
           nrows a' = nrows a \<and> ncols a' = ncols a \<and>
           (\<forall>y x. cell a' y x =
              (if ys \<le> int y \<and> int y < ye \<and> xs \<le> int x \<and> int x < xe
               then cell a y x + cell k (nat (kys + (int y - ys))) (nat (kxs + (int x - xs)))
               else cell a y x))"
proof -
  have s: "py_slice (nrows a) ys ye = (nat ys, nat (ye - ys))"
    "py_slice (ncols a) xs xe = (nat xs, nat (xe - xs))"
    "py_slice (nrows k) kys kye = (nat kys, nat (ye - ys))"
    "py_slice (ncols k) kxs kxe = (nat kxs, nat (xe - xs))"
    using assms by (simp_all add: py_slice_proper)
  have iy: "nat kys + (if nat (ye - ys) = 1 then 0 else y - nat ys) = nat (kys + (int y - ys))"
    if "ys \<le> int y" "int y < ye" for y
    using that assms(1,7) by (auto simp: nat_add_distrib nat_diff_distrib)
  have ix: "nat kxs + (if nat (xe - xs) = 1 then 0 else x - nat xs) = nat (kxs + (int x - xs))"
    if "xs \<le> int x" "int x < xe" for x
    using that assms(4,10) by (auto simp: nat_add_distrib nat_diff_distrib)
  have rng: "(nat ys \<le> y \<and> y < nat ys + nat (ye - ys)) \<longleftrightarrow> (ys \<le> int y \<and> int y < ye)" for y
    using assms(1,2) by auto
  have rngx: "(nat xs \<le> x \<and> x < nat xs + nat (xe - xs)) \<longleftrightarrow> (xs \<le> int x \<and> int x < xe)" for x
    using assms(4,5) by auto
  define a' where "a' = \<lparr>nrows = nrows a, ncols = ncols a,
      cell = \<lambda>y x.
        if nat ys \<le> y \<and> y < nat ys + nat (ye - ys) \<and> nat xs \<le> x \<and> x < nat xs + nat (xe - xs)
        then cell a y x +
             cell k (nat kys + (if nat (ye - ys) = 1 then 0 else y - nat ys))
                    (nat kxs + (if nat (xe - xs) = 1 then 0 else x - nat xs))
        else cell a y x\<rparr>"
  have res: "iadd_slice a (ys, ye) (xs, xe) k (kys, kye) (kxs, kxe) = Inr a'"
    unfolding iadd_slice_def fst_conv snd_conv s Let_def prod.case a'_def by simp
  have "cell a' y x =
          (if ys \<le> int y \<and> int y < ye \<and> xs \<le> int x \<and> int x < xe
           then cell a y x + cell k (nat (kys + (int y - ys))) (nat (kxs + (int x - xs)))
           else cell a y x)" for y x
  proof -
    have cnd: "(nat ys \<le> y \<and> y < nat ys + nat (ye - ys) \<and>
                nat xs \<le> x \<and> x < nat xs + nat (xe - xs)) \<longleftrightarrow>
               (ys \<le> int y \<and> int y < ye \<and> xs \<le> int x \<and> int x < xe)"
      using rng [of y] rngx [of x] by blast
    have step: "cell a' y x =
          (if ys \<le> int y \<and> int y < ye \<and> xs \<le> int x \<and> int x < xe
           then cell a y x +
                cell k (nat kys + (if nat (ye - ys) = 1 then 0 else y - nat ys))
                       (nat kxs + (if nat (xe - xs) = 1 then 0 else x - nat xs))
           else cell a y x)"
      by (simp only: a'_def ndarray.select_convs cnd)
    show ?thesis
    proof (cases "ys \<le> int y \<and> int y < ye \<and> xs \<le> int x \<and> int x < xe")
      case True
      then have "nat kys + (if nat (ye - ys) = 1 then 0 else y - nat ys) = nat (kys + (int y - ys))"
        and "nat kxs + (if nat (xe - xs) = 1 then 0 else x - nat xs) = nat (kxs + (int x - xs))"
        using iy [of y] ix [of x] by blast+
      then show ?thesis
        by (simp only: step)
    next
      case False
      show ?thesis
        by (simp only: step False if_False)
    qed
  qed
  moreover have "nrows a' = nrows a" "ncols a' = ncols a"
    by (simp_all add: a'_def)
  ultimately show ?thesis using res by blast
qed


lemma euclid_ge_rows: "\<bar>real_of_int (int (fst p) - int (fst q))\<bar> \<le> euclid p q"
proof -
  have "sqrt ((real_of_int (int (fst p) - int (fst q)))\<^sup>2) \<le> euclid p q"
    unfolding euclid_def by (rule real_sqrt_le_mono) simp
  then show ?thesis by simp
qed

lemma euclid_ge_cols: "\<bar>real_of_int (int (snd p) - int (snd q))\<bar> \<le> euclid p q"
proof -
  have "sqrt ((real_of_int (int (snd p) - int (snd q)))\<^sup>2) \<le> euclid p q"
    unfolding euclid_def by (rule real_sqrt_le_mono) simp
  then show ?thesis by simp
qed

lemma apply_kernel_single:
  assumes "0 \<le> px" "px < int w" "0 \<le> py" "py < int h"
  shows "\<exists>d. apply_kernel [(px, py)] (np_full h w 0) = Inr d \<and> nrows d = h \<and> ncols d = w \<and>
           (\<forall>y<h. \<forall>x<w. cell d y x = falloff (euclid (y, x) (nat py, nat px)))"
proof -
  define a :: "real ndarray" where "a = np_full h w 0"
  define ys where "ys = max 0 (py - radius_px)"
  define ye where "ye = min (int h) (py + radius_px + 1)"
  define xs where "xs = max 0 (px - radius_px)"
  define xe where "xe = min (int w) (px + radius_px + 1)"
  define kys where "kys = radius_px - (py - ys)"
  define kye where "kye = radius_px + (ye - py)"
  define kxs where "kxs = radius_px - (px - xs)"
  define kxe where "kxe = radius_px + (xe - px)"
  have a: "nrows a = h" "ncols a = w" "\<And>y x. cell a y x = 0"
    by (simp_all add: a_def np_full_def)
  have "\<exists>a'. iadd_slice a (ys, ye) (xs, xe) kernel (kys, kye) (kxs, kxe) = Inr a' \<and>
           nrows a' = nrows a \<and> ncols a' = ncols a \<and>
           (\<forall>y x. cell a' y x =
              (if ys \<le> int y \<and> int y < ye \<and> xs \<le> int x \<and> int x < xe
               then cell a y x + cell kernel (nat (kys + (int y - ys))) (nat (kxs + (int x - xs)))
               else cell a y x))"
    using assms
    by (intro iadd_slice_proper)
       (simp_all add: a kernel_shape ys_def ye_def xs_def xe_def kys_def kye_def kxs_def kxe_def
          radius_px_eq)
  then obtain a' where run: "iadd_slice a (ys, ye) (xs, xe) kernel (kys, kye) (kxs, kxe) = Inr a'"
    and shape: "nrows a' = h" "ncols a' = w"
    and cells: "\<And>y x. cell a' y x =
              (if ys \<le> int y \<and> int y < ye \<and> xs \<le> int x \<and> int x < xe
               then cell kernel (nat (kys + (int y - ys))) (nat (kxs + (int x - xs)))
               else 0)"
    using a by auto
  have res: "apply_kernel [(px, py)] (np_full h w 0) = Inr a'"
    using run
    by (simp add: a_def [symmetric] a Let_def ys_def ye_def xs_def xe_def kys_def kye_def
        kxs_def kxe_def)
  have "cell a' y x = falloff (euclid (y, x) (nat py, nat px))" if "y < h" "x < w" for y x
  proof (cases "ys \<le> int y \<and> int y < ye \<and> xs \<le> int x \<and> int x < xe")
    case True
    then have iy: "int (nat (kys + (int y - ys))) - radius_px = int y - py"
      and ix: "int (nat (kxs + (int x - xs))) - radius_px = int x - px"
      using assms that
      by (simp_all add: kys_def kxs_def ys_def xs_def ye_def xe_def radius_px_eq)
    have "cell a' y x = cell kernel (nat (kys + (int y - ys))) (nat (kxs + (int x - xs)))"
      by (simp only: cells if_P [OF True])
    also have "\<dots> = falloff (sqrt (real_of_int
        ((int (nat (kys + (int y - ys))) - radius_px)\<^sup>2 +
         (int (nat (kxs + (int x - xs))) - radius_px)\<^sup>2)))"
      by (rule kernel_cell)
    also have "\<dots> = falloff (sqrt (real_of_int ((int y - py)\<^sup>2 + (int x - px)\<^sup>2)))"
      by (simp only: iy ix)
    also have "sqrt (real_of_int ((int y - py)\<^sup>2 + (int x - px)\<^sup>2)) = euclid (y, x) (nat py, nat px)"
      using assms by (simp add: euclid_def)
    finally show ?thesis .
  next
    case False
    then have "real_of_int radius_px < \<bar>real_of_int (int y - py)\<bar> \<or>
               real_of_int radius_px < \<bar>real_of_int (int x - px)\<bar>"
      using assms that
      by (auto simp: ys_def ye_def xs_def xe_def radius_px_eq)
    then have "real_of_int radius_px < euclid (y, x) (nat py, nat px)"
      using euclid_ge_rows [of "(y, x)" "(nat py, nat px)"]
        euclid_ge_cols [of "(y, x)" "(nat py, nat px)"] assms
      by auto
    then have "falloff (euclid (y, x) (nat py, nat px)) = 0"
      by (rule falloff_beyond)
    moreover have "cell a' y x = 0"
      by (simp only: cells if_not_P [OF False])
    ultimately show ?thesis by simp
  qed
  with res shape show ?thesis by blast
qed


lemma np_max_ge:
  assumes "np_max a = Inr m" and "y < nrows a" and "x < ncols a"
  shows "cell a y x \<le> m"
proof -
  let ?vs = "map (\<lambda>(y, x). cell a y x) (pixels (nrows a) (ncols a))"
  have m: "m = Max (set ?vs)"
    using assms(1) by (simp add: np_max_def Let_def split: if_splits)
  have "(y, x) \<in> set (pixels (nrows a) (ncols a))"
    using assms(2,3) by (simp add: set_pixels)
  then have "cell a y x \<in> set ?vs" by force
  then show ?thesis unfolding m by (intro Max_ge) simp_all
qed

lemma np_max_eqI:
  assumes "y0 < nrows a" and "x0 < ncols a"
    and "\<And>y x. y < nrows a \<Longrightarrow> x < ncols a \<Longrightarrow> cell a y x \<le> cell a y0 x0"
  shows "np_max a = Inr (cell a y0 x0)"
proof -
  let ?vs = "map (\<lambda>(y, x). cell a y x) (pixels (nrows a) (ncols a))"
  have "(y0, x0) \<in> set (pixels (nrows a) (ncols a))"
    using assms(1,2) by (simp add: set_pixels)
  then have mem: "cell a y0 x0 \<in> set ?vs" by force
  then have ne: "?vs \<noteq> []" by auto
  have "Max (set ?vs) = cell a y0 x0"
  proof (rule Max_eqI)
    show "finite (set ?vs)" by simp
    show "v \<le> cell a y0 x0" if "v \<in> set ?vs" for v
      using that assms(3) by (auto simp: set_pixels)
    show "cell a y0 x0 \<in> set ?vs" by (rule mem)
  qed
  then show ?thesis using ne by (simp add: np_max_def Let_def)
qed

lemma single_amenity_cells:
  assumes proj: "latlon_to_pixel lat lon min_lat max_lat min_lon max_lon h w = Inr (px, py)"
    and inside: "0 \<le> px" "px < int w" "0 \<le> py" "py < int h"
  shows "\<exists>score.
           calculate_amenity_priority [Point lon lat] (min_lon, min_lat, max_lon, max_lat)
             (w, h) max_points = Inr score \<and>
           nrows score = h \<and> ncols score = w \<and>
           (\<forall>y<h. \<forall>x<w.
              cell score y x = falloff (euclid (y, x) (nat py, nat px)) * max_points)"
proof -
  let ?c = "(nat py, nat px)"
  obtain d where run: "apply_kernel [(px, py)] (np_full h w 0) = Inr d"
    and shape: "nrows d = h" "ncols d = w"
    and cells: "\<And>y x. y < h \<Longrightarrow> x < w \<Longrightarrow> cell d y x = falloff (euclid (y, x) ?c)"
    using apply_kernel_single [OF inside] by blast
  have c: "nat py < h" "nat px < w"
    using inside by simp_all
  have centre: "cell d (nat py) (nat px) = 1"
    using cells [OF c] by (simp add: euclid_zero_iff [THEN iffD2] falloff_0)
  have mx: "np_max d = Inr 1"
    using np_max_eqI [of "nat py" d "nat px"] c shape cells falloff_le_1 centre by simp
  define score where "score = np_map (\<lambda>v. v * max_points) (np_map (\<lambda>v. v / 1) d)"
  have res: "calculate_amenity_priority [Point lon lat] (min_lon, min_lat, max_lon, max_lat)
             (w, h) max_points = Inr score"
    by (simp add: calculate_amenity_priority_def proj run mx score_def del: apply_kernel.simps)
  have sc: "cell score y x = falloff (euclid (y, x) ?c) * max_points" if "y < h" "x < w" for y x
    using cells [OF that] by (simp add: score_def np_map_def)
  have sh: "nrows score = h" "ncols score = w"
    using shape by (simp_all add: score_def np_map_def)
  show ?thesis
    using res sh sc by blast
qed

text \<open>
  C8. For an amenity list of exactly one point whose projection \<open>(px, py)\<close> lies inside
  the image, the amenity component is returned with the shape of the image; it attains its
  maximum at the pixel \<open>(py, px)\<close> and only there, it is weakly decreasing in the Euclidean
  pixel distance from that pixel, and it is zero at every pixel farther away than the kernel
  radius \<open>radius_px = int(50 / 0.3) = 166\<close> pixels (so also beyond 50 m / 0.3 m per pixel).
\<close>

theorem single_amenity_density:
  assumes proj: "latlon_to_pixel lat lon min_lat max_lat min_lon max_lon h w = Inr (px, py)"
    and inside: "0 \<le> px" "px < int w" "0 \<le> py" "py < int h"
    and pts: "0 < max_points"
  shows "\<exists>score.
           calculate_amenity_priority [Point lon lat] (min_lon, min_lat, max_lon, max_lat)
             (w, h) max_points = Inr score \<and>
           nrows score = h \<and> ncols score = w \<and>
           (\<forall>y<h. \<forall>x<w. cell score y x \<le> cell score (nat py) (nat px) \<and>
              (cell score y x = cell score (nat py) (nat px) \<longrightarrow> y = nat py \<and> x = nat px)) \<and>
           (\<forall>y<h. \<forall>x<w. \<forall>y'<h. \<forall>x'<w.
              euclid (y, x) (nat py, nat px) \<le> euclid (y', x') (nat py, nat px)
              \<longrightarrow> cell score y' x' \<le> cell score y x) \<and>
           (\<forall>y<h. \<forall>x<w. real_of_int radius_px < euclid (y, x) (nat py, nat px)
              \<longrightarrow> cell score y x = 0)"
proof -
  let ?c = "(nat py, nat px)"
  obtain score where res: "calculate_amenity_priority [Point lon lat]
      (min_lon, min_lat, max_lon, max_lat) (w, h) max_points = Inr score"
    and sh: "nrows score = h" "ncols score = w"
    and sc: "\<And>y x. y < h \<Longrightarrow> x < w \<Longrightarrow>
               cell score y x = falloff (euclid (y, x) ?c) * max_points"
    using single_amenity_cells [OF proj inside] by blast
  have c: "nat py < h" "nat px < w"
    using inside by simp_all
  have sc0: "cell score (nat py) (nat px) = max_points"
    using sc [OF c] by (simp add: euclid_zero_iff [THEN iffD2] falloff_0)
  have p1: "cell score y x \<le> cell score (nat py) (nat px) \<and>
              (cell score y x = cell score (nat py) (nat px) \<longrightarrow> y = nat py \<and> x = nat px)"
    if "y < h" "x < w" for y x
  proof (cases "(y, x) = ?c")
    case True
    then show ?thesis by simp
  next
    case False
    then have "0 < euclid (y, x) ?c"
      using euclid_nonneg [of "(y, x)" ?c] euclid_zero_iff [of "(y, x)" ?c] by linarith
    then have "falloff (euclid (y, x) ?c) < 1" by (rule falloff_lt_1)
    then have "cell score y x < max_points"
      using pts by (simp add: sc [OF that])
    then show ?thesis by (simp add: sc0)
  qed
  have p2: "cell score y' x' \<le> cell score y x"
    if "y < h" "x < w" "y' < h" "x' < w"
      and "euclid (y, x) ?c \<le> euclid (y', x') ?c" for y x y' x'
  proof -
    have "falloff (euclid (y', x') ?c) \<le> falloff (euclid (y, x) ?c)"
      using that(5) by (intro falloff_antimono euclid_nonneg)
    then show ?thesis
      using pts by (simp add: sc that)
  qed
  have p3: "cell score y x = 0"
    if "y < h" "x < w" "real_of_int radius_px < euclid (y, x) ?c" for y x
    using that by (simp add: sc falloff_beyond)
  show ?thesis
    using res sh p1 p2 p3 by blast
qed

theorem single_amenity_density_witness:
  "latlon_to_pixel 200 200 0 400 0 400 400 400 = Inr (200, 200) \<and>
   (\<exists>score.
      calculate_amenity_priority [Point 200 200] (0, 0, 400, 400) (400, 400) SCORE_AMENITY
        = Inr score \<and>
      cell score 200 201 \<le> cell score 200 200 \<and>
      cell score 200 203 \<le> cell score 200 201 \<and>
      cell score 0 0 = 0)"
proof -
  have proj: "latlon_to_pixel 200 200 0 400 0 400 400 400 = Inr (200, 200)"
    by (rule project_200)
  have pts: "0 < SCORE_AMENITY"
    by (simp add: SCORE_AMENITY_def)
  have inside: "(0::int) \<le> 200" "(200::int) < int 400"
    by simp_all
  obtain score where res: "calculate_amenity_priority [Point 200 200] (0, 0, 400, 400)
      (400, 400) SCORE_AMENITY = Inr score"
    and mx: "\<forall>y<400. \<forall>x<400. cell score y x \<le> cell score (nat 200) (nat 200) \<and>
              (cell score y x = cell score (nat 200) (nat 200) \<longrightarrow> y = nat 200 \<and> x = nat 200)"
    and mono: "\<forall>y<400. \<forall>x<400. \<forall>y'<400. \<forall>x'<400.
              euclid (y, x) (nat 200, nat 200) \<le> euclid (y', x') (nat 200, nat 200)
              \<longrightarrow> cell score y' x' \<le> cell score y x"
    and zero: "\<forall>y<400. \<forall>x<400. real_of_int radius_px < euclid (y, x) (nat 200, nat 200)
              \<longrightarrow> cell score y x = 0"
    using single_amenity_density [OF proj inside inside pts] by blast
  have n: "nat 200 = (200::nat)" by simp
  have lt: "(200::nat) < 400" "(201::nat) < 400" "(203::nat) < 400" "(0::nat) < 400"
    by simp_all
  have far: "real_of_int radius_px < euclid (0, 0) (nat 200, nat 200)"
    by (simp add: radius_px_eq euclid_def real_less_rsqrt)
  have near: "euclid (200, 201) (nat 200, nat 200) \<le> euclid (200, 203) (nat 200, nat 200)"
    by (simp add: euclid_def)
  have "cell score 200 201 \<le> cell score 200 200"
    using mx [rule_format, OF lt(1) lt(2)] unfolding n by (rule conjunct1)
  moreover have "cell score 200 203 \<le> cell score 200 201"
    using mono [rule_format, OF lt(1) lt(2) lt(1) lt(3) near] .
  moreover have "cell score 0 0 = 0"
    using zero [rule_format, OF lt(4) lt(4) far] .
  ultimately show ?thesis
    using proj res by (intro conjI exI [of _ score])
qed

section \<open>Total score and bands\<close>

lemma iadd_slice_nonneg:
  assumes "iadd_slice a ys xs k kys kxs = Inr a'"
    and "\<And>y x. 0 \<le> cell a y x" and "\<And>i j. 0 \<le> cell k i j"
  shows "nrows a' = nrows a \<and> ncols a' = ncols a \<and> (\<forall>y x. 0 \<le> cell a' y x)"
  using assms
  by (auto simp: iadd_slice_def Let_def split: prod.splits if_splits)

lemma kernel_nonneg: "0 \<le> cell kernel i j"
  by (simp add: kernel_cell falloff_nonneg)

lemma apply_kernel_nonneg:
  assumes "apply_kernel pxs d = Inr d'" and "\<And>y x. 0 \<le> cell d y x"
  shows "nrows d' = nrows d \<and> ncols d' = ncols d \<and> (\<forall>y x. 0 \<le> cell d' y x)"
  using assms
proof (induction pxs arbitrary: d)
  case Nil
  then show ?case by simp
next
  case (Cons p pxs)
  obtain px_x px_y where p: "p = (px_x, px_y)" by (cases p)
  from Cons.prems(1) obtain d1 ys xs kys kxs where
    step: "iadd_slice d ys xs kernel kys kxs = Inr d1" and rest: "apply_kernel pxs d1 = Inr d'"
    unfolding p by (auto simp: Let_def split: sum.splits)
  have d1: "nrows d1 = nrows d \<and> ncols d1 = ncols d \<and> (\<forall>y x. 0 \<le> cell d1 y x)"
    using iadd_slice_nonneg [OF step] Cons.prems(2) kernel_nonneg by blast
  then show ?case
    using Cons.IH [OF rest] by simp
qed

lemma amenity_bounds:
  assumes "calculate_amenity_priority g b (w, h) max_points = Inr s" and "0 \<le> max_points"
  shows "nrows s = h \<and> ncols s = w \<and>
         (\<forall>y<h. \<forall>x<w. 0 \<le> cell s y x \<and> cell s y x \<le> max_points)"
proof (cases "length g = 0")
  case True
  then show ?thesis
    using assms by (auto simp: calculate_amenity_priority_def np_full_def)
next
  case False
  then obtain pxs where pxs: "amenity_pixels g b h w = Inr pxs"
    using assms(1) by (auto simp: calculate_amenity_priority_def split: sum.splits)
  show ?thesis
  proof (cases "length pxs = 0")
    case True
    then show ?thesis
      using assms False pxs by (auto simp: calculate_amenity_priority_def np_full_def)
  next
    case ne: False
    then obtain d m where d: "apply_kernel pxs (np_full h w 0) = Inr d"
      and m: "np_max d = Inr m"
      and s: "s = np_map (\<lambda>v. v * max_points) (if 0 < m then np_map (\<lambda>v. v / m) d else d)"
      using assms(1) False pxs
      by (auto simp: calculate_amenity_priority_def Let_def split: sum.splits)
    have dn: "nrows d = h \<and> ncols d = w \<and> (\<forall>y x. 0 \<le> cell d y x)"
      using apply_kernel_nonneg [OF d] by (simp add: np_full_def)
    have "0 \<le> cell s y x \<and> cell s y x \<le> max_points" if "y < h" "x < w" for y x
    proof -
      have le: "cell d y x \<le> m"
        using np_max_ge [OF m] that dn by simp
      have ge: "0 \<le> cell d y x" using dn by simp
      show ?thesis
      proof (cases "0 < m")
        case True
        then have "0 \<le> cell d y x / m" "cell d y x / m \<le> 1"
          using le ge by simp_all
        then have q: "0 \<le> cell d y x / m" "cell d y x / m \<le> 1"
          by simp_all
        have "0 \<le> cell d y x / m * max_points"
          using q(1) assms(2) by (rule mult_nonneg_nonneg)
        moreover have "cell d y x / m * max_points \<le> 1 * max_points"
          using q(2) assms(2) by (rule mult_right_mono)
        moreover have "cell s y x = cell d y x / m * max_points"
          using True by (simp add: s np_map_def)
        ultimately show ?thesis by simp
      next
        case False
        then have "cell d y x = 0" using le ge by simp
        then show ?thesis using False assms(2) by (simp add: s np_map_def)
      qed
    qed
    moreover have "nrows s = h" "ncols s = w"
      using dn by (simp_all add: s np_map_def)
    ultimately show ?thesis by blast
  qed
qed

lemma sidewalk_range:
  assumes "calculate_sidewalk_priority m = Inr s"
  shows "nrows s = nrows m \<and> ncols s = ncols m \<and> (\<forall>y x. 0 \<le> cell s y x \<and> cell s y x \<le> 35)"
  using assms
  by (auto simp: calculate_sidewalk_priority_def distance_transform_edt_def Let_def
      assign_where_def np_map_def np_full_def np_not_def split: if_splits)

lemma building_range:
  assumes "calculate_building_priority m = Inr s"
  shows "nrows s = nrows m \<and> ncols s = ncols m \<and> (\<forall>y x. 0 \<le> cell s y x \<and> cell s y x \<le> 25)"
  using assms
  by (auto simp: calculate_building_priority_def distance_transform_edt_def Let_def
      assign_where_def np_map_def np_full_def np_not_def split: if_splits)

lemma sun_range:
  "nrows (calculate_sun_priority a) = nrows a \<and> ncols (calculate_sun_priority a) = ncols a \<and>
   (\<forall>y x. 0 \<le> cell (calculate_sun_priority a) y x \<and> cell (calculate_sun_priority a) y x \<le> 20)"
  by (simp add: calculate_sun_priority_def Let_def assign_where_def np_map_def np_full_def)

lemma calculate_cells:
  assumes "calculate inp = Inr res"
  shows "\<exists>sw bl am.
     calculate_sidewalk_priority (sidewalk_mask inp) = Inr sw \<and>
     calculate_building_priority (building_mask inp) = Inr bl \<and>
     calculate_amenity_priority (amenities_gdf inp) (geo_bounds inp)
       (ncols (shadow_intensity inp), nrows (shadow_intensity inp)) SCORE_AMENITY = Inr am \<and>
     nrows (enhanced_priority_score res) = nrows sw \<and>
     ncols (enhanced_priority_score res) = ncols sw \<and>
     nrows (critical_priority res) = nrows sw \<and> ncols (critical_priority res) = ncols sw \<and>
     nrows (high_priority res) = nrows sw \<and> ncols (high_priority res) = ncols sw \<and>
     nrows (medium_priority res) = nrows sw \<and> ncols (medium_priority res) = ncols sw \<and>
     nrows (low_priority res) = nrows sw \<and> ncols (low_priority res) = ncols sw \<and>
     (\<forall>y x.
        cell (enhanced_priority_score res) y x =
          (cell sw y x + cell bl y x + cell (calculate_sun_priority (shadow_intensity inp)) y x +
           cell am y x + 0) * (if valid_pixel inp y x then 1 else 0) \<and>
        cell (critical_priority res) y x =
          (80 \<le> cell (enhanced_priority_score res) y x \<and> valid_pixel inp y x) \<and>
        cell (high_priority res) y x =
          ((60 \<le> cell (enhanced_priority_score res) y x \<and>
            cell (enhanced_priority_score res) y x < 80) \<and> valid_pixel inp y x) \<and>
        cell (medium_priority res) y x =
          ((40 \<le> cell (enhanced_priority_score res) y x \<and>
            cell (enhanced_priority_score res) y x < 60) \<and> valid_pixel inp y x) \<and>
        cell (low_priority res) y x =
          ((0 < cell (enhanced_priority_score res) y x \<and>
            cell (enhanced_priority_score res) y x < 40) \<and> valid_pixel inp y x))"
proof -
  from assms obtain sw where sw: "calculate_sidewalk_priority (sidewalk_mask inp) = Inr sw"
    by (auto simp: calculate_def Let_def split: sum.splits)
  from assms sw obtain bl where bl: "calculate_building_priority (building_mask inp) = Inr bl"
    by (auto simp: calculate_def Let_def split: sum.splits)
  from assms sw bl obtain am where am: "calculate_amenity_priority (amenities_gdf inp) (geo_bounds inp)
       (ncols (shadow_intensity inp), nrows (shadow_intensity inp)) SCORE_AMENITY = Inr am"
    by (auto simp: calculate_def Let_def split: sum.splits)
  show ?thesis
    using assms
    by (simp add: calculate_def Let_def sw bl am np_map2_def np_map_def np_not_def np_full_def
        valid_pixel_def PRIORITY_CRITICAL_MIN_def PRIORITY_HIGH_MIN_def PRIORITY_MEDIUM_MIN_def)
      auto
qed


text \<open>
  C1. Whenever \<open>calculate\<close> returns (on arrays of one shape), the four band masks are
  the pixels of the grid in the valid area with score at least 80, in \<open>[60, 80)\<close>, in
  \<open>[40, 60)\<close> and in \<open>(0, 40)\<close>; they are pairwise disjoint and their union is exactly
  the set of pixels with a strictly positive returned score in the valid area.
\<close>

theorem bands_partition_positive_valid:
  assumes "same_shape inp" and "calculate inp = Inr res"
  shows "(let h = nrows (shadow_intensity inp); w = ncols (shadow_intensity inp);
              score = cell (enhanced_priority_score res);
              critical = band_pixels (critical_priority res);
              high = band_pixels (high_priority res);
              medium = band_pixels (medium_priority res);
              low = band_pixels (low_priority res)
          in critical = {(y, x). y < h \<and> x < w \<and> 80 \<le> score y x \<and> valid_pixel inp y x} \<and>
             high = {(y, x). y < h \<and> x < w \<and> 60 \<le> score y x \<and> score y x < 80 \<and> valid_pixel inp y x} \<and>
             medium = {(y, x). y < h \<and> x < w \<and> 40 \<le> score y x \<and> score y x < 60 \<and> valid_pixel inp y x} \<and>
             low = {(y, x). y < h \<and> x < w \<and> 0 < score y x \<and> score y x < 40 \<and> valid_pixel inp y x} \<and>
             critical \<inter> high = {} \<and> critical \<inter> medium = {} \<and> critical \<inter> low = {} \<and>
             high \<inter> medium = {} \<and> high \<inter> low = {} \<and> medium \<inter> low = {} \<and>
             critical \<union> high \<union> medium \<union> low =
               {(y, x). y < h \<and> x < w \<and> 0 < score y x \<and> valid_pixel inp y x})"
proof -
  define h where "h = nrows (shadow_intensity inp)"
  define w where "w = ncols (shadow_intensity inp)"
  define score where "score = cell (enhanced_priority_score res)"
  obtain sw where sw: "calculate_sidewalk_priority (sidewalk_mask inp) = Inr sw"
    and shapes: "nrows (critical_priority res) = nrows sw" "ncols (critical_priority res) = ncols sw"
      "nrows (high_priority res) = nrows sw" "ncols (high_priority res) = ncols sw"
      "nrows (medium_priority res) = nrows sw" "ncols (medium_priority res) = ncols sw"
      "nrows (low_priority res) = nrows sw" "ncols (low_priority res) = ncols sw"
    and cells: "\<And>y x. cell (critical_priority res) y x = (80 \<le> score y x \<and> valid_pixel inp y x)"
      "\<And>y x. cell (high_priority res) y x = ((60 \<le> score y x \<and> score y x < 80) \<and> valid_pixel inp y x)"
      "\<And>y x. cell (medium_priority res) y x = ((40 \<le> score y x \<and> score y x < 60) \<and> valid_pixel inp y x)"
      "\<And>y x. cell (low_priority res) y x = ((0 < score y x \<and> score y x < 40) \<and> valid_pixel inp y x)"
    using calculate_cells [OF assms(2)] unfolding score_def by blast
  have sws: "nrows sw = h" "ncols sw = w"
    using sidewalk_range [OF sw] assms(1) by (simp_all add: same_shape_def Let_def h_def w_def)
  have c: "band_pixels (critical_priority res) =
      {(y, x). y < h \<and> x < w \<and> 80 \<le> score y x \<and> valid_pixel inp y x}"
    by (simp add: band_pixels_def shapes sws cells)
  have hi: "band_pixels (high_priority res) =
      {(y, x). y < h \<and> x < w \<and> 60 \<le> score y x \<and> score y x < 80 \<and> valid_pixel inp y x}"
    by (simp add: band_pixels_def shapes sws cells)
  have m: "band_pixels (medium_priority res) =
      {(y, x). y < h \<and> x < w \<and> 40 \<le> score y x \<and> score y x < 60 \<and> valid_pixel inp y x}"
    by (simp add: band_pixels_def shapes sws cells)
  have l: "band_pixels (low_priority res) =
      {(y, x). y < h \<and> x < w \<and> 0 < score y x \<and> score y x < 40 \<and> valid_pixel inp y x}"
    by (simp add: band_pixels_def shapes sws cells)
  have d1: "band_pixels (critical_priority res) \<inter> band_pixels (high_priority res) = {}"
    unfolding c hi by auto
  have d2: "band_pixels (critical_priority res) \<inter> band_pixels (medium_priority res) = {}"
    unfolding c m by auto
  have d3: "band_pixels (critical_priority res) \<inter> band_pixels (low_priority res) = {}"
    unfolding c l by auto
  have d4: "band_pixels (high_priority res) \<inter> band_pixels (medium_priority res) = {}"
    unfolding hi m by auto
  have d5: "band_pixels (high_priority res) \<inter> band_pixels (low_priority res) = {}"
    unfolding hi l by auto
  have d6: "band_pixels (medium_priority res) \<inter> band_pixels (low_priority res) = {}"
    unfolding m l by auto
  have u: "band_pixels (critical_priority res) \<union> band_pixels (high_priority res) \<union>
           band_pixels (medium_priority res) \<union> band_pixels (low_priority res) =
           {(y, x). y < h \<and> x < w \<and> 0 < score y x \<and> valid_pixel inp y x}"
    unfolding c hi m l by auto
  show ?thesis
    unfolding Let_def h_def [symmetric] w_def [symmetric] score_def [symmetric]
    using c hi m l d1 d2 d3 d4 d5 d6 u by blast
qed

text \<open>
  C2. Whenever \<open>calculate\<close> returns (on arrays of one shape), the score grid has the
  shape of the shadow intensity field and every pixel of it has a total score in
  \<open>[0, 100]\<close>, for every shadow intensity, masks, amenity list and bounds.
\<close>

theorem score_in_0_100:
  assumes "same_shape inp" and "calculate inp = Inr res"
  shows "nrows (enhanced_priority_score res) = nrows (shadow_intensity inp) \<and>
         ncols (enhanced_priority_score res) = ncols (shadow_intensity inp) \<and>
         (\<forall>y<nrows (shadow_intensity inp). \<forall>x<ncols (shadow_intensity inp).
            0 \<le> cell (enhanced_priority_score res) y x \<and>
            cell (enhanced_priority_score res) y x \<le> 100)"
proof -
  define h where "h = nrows (shadow_intensity inp)"
  define w where "w = ncols (shadow_intensity inp)"
  obtain sw bl am where sw: "calculate_sidewalk_priority (sidewalk_mask inp) = Inr sw"
    and bl: "calculate_building_priority (building_mask inp) = Inr bl"
    and am: "calculate_amenity_priority (amenities_gdf inp) (geo_bounds inp) (w, h) SCORE_AMENITY
               = Inr am"
    and shape: "nrows (enhanced_priority_score res) = nrows sw"
      "ncols (enhanced_priority_score res) = ncols sw"
    and cells: "\<And>y x. cell (enhanced_priority_score res) y x =
          (cell sw y x + cell bl y x + cell (calculate_sun_priority (shadow_intensity inp)) y x +
           cell am y x + 0) * (if valid_pixel inp y x then 1 else 0)"
    using calculate_cells [OF assms(2)] unfolding h_def w_def by blast
  have sws: "nrows sw = h" "ncols sw = w"
    using sidewalk_range [OF sw] assms(1) by (simp_all add: same_shape_def Let_def h_def w_def)
  have "0 \<le> cell (enhanced_priority_score res) y x \<and>
        cell (enhanced_priority_score res) y x \<le> 100" if "y < h" "x < w" for y x
  proof -
    have "0 \<le> cell sw y x" "cell sw y x \<le> 35"
      using sidewalk_range [OF sw] by simp_all
    moreover have "0 \<le> cell bl y x" "cell bl y x \<le> 25"
      using building_range [OF bl] by simp_all
    moreover have "0 \<le> cell (calculate_sun_priority (shadow_intensity inp)) y x"
      "cell (calculate_sun_priority (shadow_intensity inp)) y x \<le> 20"
      using sun_range [of "shadow_intensity inp"] by simp_all
    moreover have "0 \<le> cell am y x" "cell am y x \<le> 10"
      using amenity_bounds [OF am] that by (simp_all add: SCORE_AMENITY_def)
    ultimately show ?thesis
      unfolding cells by (cases "valid_pixel inp y x") simp_all
  qed
  then show ?thesis
    using shape sws unfolding h_def w_def by simp
qed


lemma sidewalk_returns: "\<exists>s. calculate_sidewalk_priority m = Inr s"
proof (cases "np_any m")
  case True
  then show ?thesis using calculate_sidewalk_priority_cells by blast
next
  case False
  then show ?thesis by (simp add: calculate_sidewalk_priority_def)
qed

lemma building_returns: "\<exists>s. calculate_building_priority m = Inr s"
proof (cases "np_any m")
  case True
  then show ?thesis using calculate_building_priority_cells by blast
next
  case False
  then show ?thesis by (simp add: calculate_building_priority_def)
qed

lemma calculate_returns:
  assumes "calculate_amenity_priority (amenities_gdf inp) (geo_bounds inp)
       (ncols (shadow_intensity inp), nrows (shadow_intensity inp)) SCORE_AMENITY = Inr am"
  shows "\<exists>res. calculate inp = Inr res"
proof -
  obtain sw bl where "calculate_sidewalk_priority (sidewalk_mask inp) = Inr sw"
    "calculate_building_priority (building_mask inp) = Inr bl"
    using sidewalk_returns building_returns by blast
  then show ?thesis
    using assms by (simp add: calculate_def Let_def)
qed

lemma demo_input_shape: "same_shape demo_input"
  by (simp add: same_shape_def demo_input_def np_full_def)

lemma demo_input_returns: "\<exists>res. calculate demo_input = Inr res"
proof -
  have "latlon_to_pixel (3 / 2) (1 / 2) 0 2 0 2 2 2 = Inr (0, 0)"
    by (rule project_demo)
  then obtain score where "calculate_amenity_priority [Point (1 / 2) (3 / 2)] (0, 0, 2, 2) (2, 2)
      SCORE_AMENITY = Inr score"
    using single_amenity_cells [of "3 / 2" "1 / 2" 0 2 0 2 2 2 0 0 SCORE_AMENITY] by auto
  then have "calculate_amenity_priority (amenities_gdf demo_input) (geo_bounds demo_input)
       (ncols (shadow_intensity demo_input), nrows (shadow_intensity demo_input)) SCORE_AMENITY
       = Inr score"
    by (simp add: demo_input_def np_full_def)
  then show ?thesis by (rule calculate_returns)
qed

theorem bands_partition_positive_valid_witness:
  "same_shape demo_input \<and>
   (\<exists>res. calculate demo_input = Inr res \<and>
      band_pixels (critical_priority res) \<inter> band_pixels (high_priority res) = {} \<and>
      band_pixels (medium_priority res) \<inter> band_pixels (low_priority res) = {} \<and>
      band_pixels (critical_priority res) \<union> band_pixels (high_priority res) \<union>
      band_pixels (medium_priority res) \<union> band_pixels (low_priority res) =
        {(y, x). y < 2 \<and> x < 2 \<and> 0 < cell (enhanced_priority_score res) y x \<and>
                 valid_pixel demo_input y x})"
proof -
  obtain res where res: "calculate demo_input = Inr res"
    using demo_input_returns by blast
  have dims: "nrows (shadow_intensity demo_input) = 2" "ncols (shadow_intensity demo_input) = 2"
    by (simp_all add: demo_input_def np_full_def)
  note t = bands_partition_positive_valid [OF demo_input_shape res, unfolded Let_def dims]
  have "band_pixels (critical_priority res) \<inter> band_pixels (high_priority res) = {}"
    using t by (elim conjE) assumption
  moreover have "band_pixels (medium_priority res) \<inter> band_pixels (low_priority res) = {}"
    using t by (elim conjE) assumption
  moreover have "band_pixels (critical_priority res) \<union> band_pixels (high_priority res) \<union>
      band_pixels (medium_priority res) \<union> band_pixels (low_priority res) =
        {(y, x). y < 2 \<and> x < 2 \<and> 0 < cell (enhanced_priority_score res) y x \<and>
                 valid_pixel demo_input y x}"
    using t by (elim conjE) assumption
  ultimately show ?thesis
    using res demo_input_shape by (intro conjI exI [of _ res])
qed

theorem score_in_0_100_witness:
  "same_shape demo_input \<and>
   (\<exists>res. calculate demo_input = Inr res \<and>
      nrows (enhanced_priority_score res) = 2 \<and> ncols (enhanced_priority_score res) = 2 \<and>
      0 \<le> cell (enhanced_priority_score res) 0 1 \<and>
      cell (enhanced_priority_score res) 0 1 \<le> 100)"
proof -
  obtain res where res: "calculate demo_input = Inr res"
    using demo_input_returns by blast
  have dims: "nrows (shadow_intensity demo_input) = 2" "ncols (shadow_intensity demo_input) = 2"
    by (simp_all add: demo_input_def np_full_def)
  note t = score_in_0_100 [OF demo_input_shape res, unfolded dims]
  have "0 \<le> cell (enhanced_priority_score res) 0 1 \<and>
        cell (enhanced_priority_score res) 0 1 \<le> 100"
    by (rule t [THEN conjunct2, THEN conjunct2, rule_format]) simp_all
  moreover have "nrows (enhanced_priority_score res) = 2"
    by (rule t [THEN conjunct1])
  moreover have "ncols (enhanced_priority_score res) = 2"
    by (rule t [THEN conjunct2, THEN conjunct1])
  ultimately show ?thesis
    using res demo_input_shape by (intro conjI exI [of _ res]) simp_all
qed

section \<open>Critical spots\<close>

lemma make_spot_fields:
  assumes "make_spot L i lc sg b h w = Inr s"
  shows "spot_matches L sg s (i, fst lc)"
  using assms
  by (auto simp: make_spot_def spot_matches_def Let_def split: prod.splits sum.splits)

lemma kept_Cons:
  "kept i (c # cs) = (if 20 \<le> length c then [(i, c)] else []) @ kept (Suc i) cs"
proof -
  have "[i..<i + length (c # cs)] = i # [Suc i..<Suc i + length cs]"
    by (simp add: upt_conv_Cons del: upt_Suc)
  then show ?thesis
    by (simp add: kept_def del: upt_Suc)
qed

lemma collect_spots_all2:
  assumes "collect_spots L i comps sg b h w acc = Inr out"
  shows "\<exists>new. out = acc @ new \<and> list_all2 (spot_matches L sg) new (kept i (map fst comps))"
  using assms
proof (induction comps arbitrary: i acc)
  case Nil
  then show ?case by (simp add: kept_def)
next
  case (Cons c cs)
  show ?case
  proof (cases "length (fst c) < 20")
    case True
    then have "collect_spots L (Suc i) cs sg b h w acc = Inr out"
      using Cons.prems by simp
    from Cons.IH [OF this] show ?thesis
      using True by (simp add: kept_Cons)
  next
    case False
    then obtain s where s: "make_spot L i c sg b h w = Inr s"
      and rest: "collect_spots L (Suc i) cs sg b h w (acc @ [s]) = Inr out"
      using Cons.prems by (auto split: sum.splits)
    from Cons.IH [OF rest] obtain new where
      new: "out = (acc @ [s]) @ new"
        "list_all2 (spot_matches L sg) new (kept (Suc i) (map fst cs))"
      by blast
    have "list_all2 (spot_matches L sg) (s # new) (kept i (map fst (c # cs)))"
      using False new(2) make_spot_fields [OF s] by (simp add: kept_Cons)
    then show ?thesis
      using new(1) by (intro exI [of _ "s # new"]) simp
  qed
qed

lemma collect_spots_all_small:
  assumes "\<forall>c \<in> set comps. length (fst c) < 20"
  shows "collect_spots L i comps sg b h w acc = Inr acc"
  using assms by (induction comps arbitrary: i) simp_all

lemma no_true_pixel_no_labels:
  assumes "labels_in_mask L m" and "\<not> np_any m"
  shows "\<forall>c \<in> set (connectedComponentsWithStats L m). length (fst c) < 20"
proof
  fix c assume c: "c \<in> set (connectedComponentsWithStats L m)"
  obtain ps ctr where cc: "c = (ps, ctr)" by (cases c)
  have "ps = []"
  proof (rule ccontr)
    assume "ps \<noteq> []"
    then obtain p where p: "p \<in> set ps" by (cases ps) auto
    obtain y x where yx: "p = (y, x)" by (cases p)
    have "y < nrows m \<and> x < ncols m \<and> cell m y x"
      using assms(1) c p unfolding labels_in_mask_def cc yx by blast
    then show False using assms(2) by (auto simp: np_any_iff)
  qed
  then show "length (fst c) < 20" by (simp add: cc)
qed

lemma kept_ids_increasing: "sorted_wrt (<) (map fst (kept i comps))"
proof -
  have "sorted_wrt (\<lambda>a b. fst a < fst b) (zip [i..<i + length comps] comps)"
    by (simp add: sorted_wrt_map [symmetric])
  then have "sorted_wrt (\<lambda>a b. fst a < fst b) (kept i comps)"
    unfolding kept_def by (rule sorted_wrt_filter)
  then show ?thesis by (simp add: sorted_wrt_map)
qed

lemma set_kept:
  "set (kept 1 comps) =
     {(j, c). 1 \<le> j \<and> j \<le> length comps \<and> c = comps ! (j - 1) \<and> 20 \<le> length c}"
proof -
  have "set (zip [1..<1 + length comps] comps) =
          {(j, c). 1 \<le> j \<and> j \<le> length comps \<and> c = comps ! (j - 1)}"
  proof (rule set_eqI, clarify)
    fix j c
    show "(j, c) \<in> set (zip [1..<1 + length comps] comps) \<longleftrightarrow>
          (j, c) \<in> {(j, c). 1 \<le> j \<and> j \<le> length comps \<and> c = comps ! (j - 1)}"
    proof
      assume "(j, c) \<in> set (zip [1..<1 + length comps] comps)"
      then obtain k where "k < length comps" "j = [1..<1 + length comps] ! k" "c = comps ! k"
        by (auto simp: set_zip)
      moreover from \<open>k < length comps\<close> have "[1..<1 + length comps] ! k = 1 + k"
        by (intro nth_upt) simp
      ultimately show "(j, c) \<in> {(j, c). 1 \<le> j \<and> j \<le> length comps \<and> c = comps ! (j - 1)}"
        by simp
    next
      assume "(j, c) \<in> {(j, c). 1 \<le> j \<and> j \<le> length comps \<and> c = comps ! (j - 1)}"
      then have j: "1 \<le> j" "j \<le> length comps" "c = comps ! (j - 1)" by simp_all
      then have "j - 1 < length comps" by simp
      moreover from j have "[1..<1 + length comps] ! (j - 1) = 1 + (j - 1)"
        by (intro nth_upt) simp
      ultimately have "j - 1 < length comps" "[1..<1 + length comps] ! (j - 1) = j"
        using j(1) by simp_all
      then show "(j, c) \<in> set (zip [1..<1 + length comps] comps)"
        using j(3) unfolding set_zip by force
    qed
  qed
  then show ?thesis
    unfolding kept_def by auto
qed

lemma ties_in_order:
  assumes "\<And>k. sorted_wrt (\<lambda>s t. g s < (g t :: nat)) (filter (\<lambda>y. f y = k) xs)"
  shows "sorted_wrt (\<lambda>s t. f s = f t \<longrightarrow> g s < g t) xs"
  using assms
proof (induction xs)
  case Nil
  show ?case by simp
next
  case (Cons x xs)
  have tail: "sorted_wrt (\<lambda>s t. g s < g t) (filter (\<lambda>y. f y = k) xs)" for k
    using Cons.prems [of k] by (cases "f x = k") simp_all
  have "g x < g t" if "t \<in> set xs" "f x = f t" for t
    using Cons.prems [of "f x"] that by simp
  then show ?case
    using Cons.IH [OF tail] by simp
qed

text \<open>
  C7 (as the code has it). For every critical mask and score grid, with a labelling whose
  labelled pixels are true pixels of the mask: when the extraction returns, the spots are
  exactly the labelled components with at least 20 pixels, one spot each (every component
  with fewer than 20 pixels is discarded); each spot reports the pixel count of its
  component, as area the float product \<open>area_px * (0.6 * 0.6)\<close> rounded to one decimal by
  \<open>round\<close>, and as score the float that \<open>np.mean\<close> returns on the component's scores rounded
  to one decimal; the list is in descending order of the reported (rounded) score, and
  spots with equal reported score stay in encounter order (ascending label).
\<close>

theorem critical_spots_reported_sorted:
  assumes "labels_in_mask L critical"
    and "extract_critical_spots L critical score_grid b h w = Inr spots"
  shows "distinct (map spot_id spots) \<and>
         set (map spot_id spots) =
           {i. 1 \<le> i \<and> i \<le> length (labelled_components L critical) \<and>
               20 \<le> length (labelled_components L critical ! (i - 1))} \<and>
         (\<forall>s \<in> set spots.
            area_pixels s = length (labelled_components L critical ! (spot_id s - 1)) \<and>
            20 \<le> area_pixels s \<and>
            (\<exists>a. float_mul_nat (fmul (fl (6 / 10)) (fl (6 / 10))) (area_pixels s) = Inr a \<and>
                 area_m2 s = round_float a 1) \<and>
            priority_score s =
              py_round (np_mean L (map (\<lambda>(y, x). cell score_grid y x)
                                   (labelled_components L critical ! (spot_id s - 1)))) 1) \<and>
         sorted_wrt (\<lambda>s t. priority_score t \<le> priority_score s) spots \<and>
         sorted_wrt (\<lambda>s t. priority_score s = priority_score t \<longrightarrow> spot_id s < spot_id t)
           spots"
proof -
  let ?key = "\<lambda>s. - priority_score s"
  define labelled where "labelled = labelled_components L critical"
  have "\<exists>unsorted. collect_spots L 1 (connectedComponentsWithStats L critical) score_grid b h w []
            = Inr unsorted \<and> spots = sort_key ?key unsorted"
  proof (cases "np_any critical")
    case True
    then show ?thesis
      using assms(2) by (auto simp: extract_critical_spots_def split: sum.splits)
  next
    case False
    then have "spots = []"
      using assms(2) by (simp add: extract_critical_spots_def)
    moreover have "collect_spots L 1 (connectedComponentsWithStats L critical) score_grid b h w []
        = Inr []"
      using no_true_pixel_no_labels [OF assms(1) False] by (rule collect_spots_all_small)
    ultimately show ?thesis by simp
  qed
  then obtain unsorted where
    run: "collect_spots L 1 (connectedComponentsWithStats L critical) score_grid b h w []
            = Inr unsorted"
    and spots: "spots = sort_key ?key unsorted"
    by blast
  have all2: "list_all2 (spot_matches L score_grid) unsorted (kept 1 labelled)"
    using collect_spots_all2 [OF run] by (simp add: labelled_def labelled_components_def)
  have ids: "map spot_id unsorted = map fst (kept 1 labelled)"
    using all2 by (induction rule: list_all2_induct) (simp_all add: spot_matches_def)
  have inc: "sorted_wrt (<) (map spot_id unsorted)"
    unfolding ids by (rule kept_ids_increasing)
  have match: "(spot_id s, labelled ! (spot_id s - 1)) \<in> set (kept 1 labelled) \<and>
               spot_matches L score_grid s (spot_id s, labelled ! (spot_id s - 1))"
    if mem: "s \<in> set unsorted" for s
  proof -
    obtain n where n: "n < length unsorted" "unsorted ! n = s"
      using mem by (auto simp: in_set_conv_nth)
    have len: "length unsorted = length (kept 1 labelled)"
      using all2 by (rule list_all2_lengthD)
    define ic where "ic = kept 1 labelled ! n"
    have ic: "ic \<in> set (kept 1 labelled)" "spot_matches L score_grid s ic"
      using n len list_all2_nthD [OF all2 n(1)] by (simp_all add: ic_def)
    obtain j c where jc: "ic = (j, c)" by (cases ic)
    have "j = spot_id s" using ic(2) by (simp add: jc spot_matches_def)
    moreover have "c = labelled ! (j - 1)" using ic(1) unfolding jc set_kept by simp
    ultimately show ?thesis using ic jc by simp
  qed
  have p_distinct: "distinct (map spot_id spots)"
  proof -
    have "distinct (map spot_id unsorted)"
      using inc by (simp add: strict_sorted_iff)
    then show ?thesis
      unfolding spots by (simp add: distinct_map)
  qed
  have p_set: "set (map spot_id spots) =
      {i. 1 \<le> i \<and> i \<le> length labelled \<and> 20 \<le> length (labelled ! (i - 1))}"
  proof -
    have "set (map spot_id spots) = set (map spot_id unsorted)"
      unfolding spots by simp
    also have "\<dots> = fst ` set (kept 1 labelled)"
      unfolding ids by simp
    also have "\<dots> = {i. 1 \<le> i \<and> i \<le> length labelled \<and> 20 \<le> length (labelled ! (i - 1))}"
      unfolding set_kept by force
    finally show ?thesis .
  qed
  have p_fields: "area_pixels s = length (labelled ! (spot_id s - 1)) \<and>
            20 \<le> area_pixels s \<and>
            (\<exists>a. float_mul_nat (fmul (fl (6 / 10)) (fl (6 / 10))) (area_pixels s) = Inr a \<and>
                 area_m2 s = round_float a 1) \<and>
            priority_score s =
              py_round (np_mean L (map (\<lambda>(y, x). cell score_grid y x)
                                   (labelled ! (spot_id s - 1)))) 1"
    if "s \<in> set spots" for s
  proof -
    have "s \<in> set unsorted" using that unfolding spots by simp
    from match [OF this] show ?thesis
      unfolding set_kept by (simp add: spot_matches_def)
  qed
  have p_sorted: "sorted_wrt (\<lambda>s t. priority_score t \<le> priority_score s) spots"
  proof -
    have "sorted (map ?key spots)"
      unfolding spots by (rule sorted_sort_key)
    then show ?thesis
      by (simp add: sorted_wrt_map)
  qed
  have p_ties: "sorted_wrt (\<lambda>s t. priority_score s = priority_score t \<longrightarrow> spot_id s < spot_id t)
           spots"
  proof -
    have un: "sorted_wrt (\<lambda>s t. spot_id s < spot_id t) unsorted"
      using inc by (simp add: sorted_wrt_map)
    have "sorted_wrt (\<lambda>s t. spot_id s < spot_id t) (filter (\<lambda>y. ?key y = k) spots)" for k
      unfolding spots sort_key_stable using un by (rule sorted_wrt_filter)
    then have "sorted_wrt (\<lambda>s t. ?key s = ?key t \<longrightarrow> spot_id s < spot_id t) spots"
      by (rule ties_in_order)
    then show ?thesis by simp
  qed
  show ?thesis
    using p_distinct p_set p_fields p_sorted p_ties unfolding labelled_def by blast
qed

lemma fl_dyadics:
  "fl 0 = Fin 0" "fl 2 = Fin 2" "fl 4 = Fin 4" "fl 10 = Fin 10" "fl 32 = Fin 32"
  "fl (1 / 2) = Fin (1 / 2)" "fl (5 / 16) = Fin (5 / 16)"
  "fl (31 / 2) = Fin (31 / 2)" "fl (31 / 64) = Fin (31 / 64)"
proof -
  show "fl 0 = Fin 0" by (rule fl_eqI) simp_all
  show "fl 2 = Fin 2" "fl 4 = Fin 4" "fl 10 = Fin 10" "fl 32 = Fin 32"
    by (rule fl_eqI, simp add: round_f64_numeral, simp)+
  show "fl (1 / 2) = Fin (1 / 2)"
    by (rule fl_eqI [OF exact_half]) simp
  have "round_f64 (5 / 16) = 5 / 16"
    by (subst round_f64_up [of _ 54]) (simp_all add: round_half_even_def)
  then show "fl (5 / 16) = Fin (5 / 16)" by (rule fl_eqI) simp
  have "round_f64 (31 / 2) = 31 / 2"
    by (subst round_f64_up [of _ 49]) (simp_all add: round_half_even_def)
  then show "fl (31 / 2) = Fin (31 / 2)" by (rule fl_eqI) simp
  have "round_f64 (31 / 64) = 31 / 64"
    by (subst round_f64_up [of _ 54]) (simp_all add: round_half_even_def)
  then show "fl (31 / 64) = Fin (31 / 64)" by (rule fl_eqI) simp
qed

lemma pixel_area: "fmul (fl (6 / 10)) (fl (6 / 10)) = Fin (6485183463413514 / 2 ^ 54)"
proof -
  have "round_f64 (6 / 10) = 5404319552844595 / 2 ^ 53"
    by (subst round_f64_up [of _ 53]) (simp_all add: round_half_even_def)
  then have a: "fl (6 / 10) = Fin (5404319552844595 / 2 ^ 53)"
    by (rule fl_eqI) simp
  have "round_f64 (5404319552844595 / 2 ^ 53 * (5404319552844595 / 2 ^ 53))
      = 6485183463413514 / 2 ^ 54"
    by (subst round_f64_up [of _ 54]) (simp_all add: round_half_even_def)
  then have "fl (5404319552844595 / 2 ^ 53 * (5404319552844595 / 2 ^ 53))
      = Fin (6485183463413514 / 2 ^ 54)"
    by (rule fl_eqI) simp
  then show ?thesis unfolding a fmul.simps .
qed

lemma area_21:
  "float_mul_nat (Fin (6485183463413514 / 2 ^ 54)) 21 = Inr (Fin (8511803295730237 / 2 ^ 50))"
proof -
  have n: "fl 21 = Fin 21"
    by (rule fl_eqI, simp add: round_f64_numeral, simp)
  have "round_f64 (6485183463413514 / 2 ^ 54 * 21) = 8511803295730237 / 2 ^ 50"
    by (subst round_f64_up [of _ 50]) (simp_all add: round_half_even_def)
  then have "fl (6485183463413514 / 2 ^ 54 * 21) = Fin (8511803295730237 / 2 ^ 50)"
    by (rule fl_eqI) simp
  then show ?thesis using n by (simp add: float_mul_nat_def float_of_nat_def)
qed

lemma area_32:
  "float_mul_nat (Fin (6485183463413514 / 2 ^ 54)) 32 = Inr (Fin (6485183463413514 / 2 ^ 49))"
proof -
  have n: "fl 32 = Fin 32"
    by (rule fl_eqI, simp add: round_f64_numeral, simp)
  have "round_f64 (6485183463413514 / 2 ^ 54 * 32) = 6485183463413514 / 2 ^ 49"
    by (subst round_f64_up [of _ 49]) (simp_all add: round_half_even_def)
  then have "fl (6485183463413514 / 2 ^ 54 * 32) = Fin (6485183463413514 / 2 ^ 49)"
    by (rule fl_eqI) simp
  then show ?thesis using n by (simp add: float_mul_nat_def float_of_nat_def)
qed

lemma round_area_21: "py_round (8511803295730237 / 2 ^ 50) 1 = 4278419646001971 / 2 ^ 49"
proof -
  have "round_half_even (8511803295730237 / 2 ^ 50 * 10 ^ 1) = 76"
    by (simp add: round_half_even_def)
  moreover have "round_f64 (76 / 10) = 4278419646001971 / 2 ^ 49"
    by (subst round_f64_up [of _ 50]) (simp_all add: round_half_even_def)
  ultimately show ?thesis by (simp add: py_round_def)
qed

lemma round_area_32: "py_round (6485183463413514 / 2 ^ 49) 1 = 23 / 2"
proof -
  have "round_half_even (6485183463413514 / 2 ^ 49 * 10 ^ 1) = 115"
    by (simp add: round_half_even_def)
  moreover have "round_f64 (115 / 10) = 23 / 2"
    by (subst round_f64_up [of _ 49]) (simp_all add: round_half_even_def)
  ultimately show ?thesis by (simp add: py_round_def)
qed

lemma round_coords:
  "py_round 4 8 = 4" "py_round 10 8 = 10" "py_round 2 8 = 2" "py_round (31 / 2) 8 = 31 / 2"
proof -
  have a: "round_f64 (31 / 2) = 31 / 2"
    by (subst round_f64_up [of _ 49]) (simp_all add: round_half_even_def)
  show "py_round 4 8 = 4" "py_round 10 8 = 10" "py_round 2 8 = 2"
    by (simp_all add: py_round_def round_half_even_def round_f64_numeral)
  show "py_round (31 / 2) 8 = 31 / 2"
    by (simp add: py_round_def round_half_even_def a)
qed

lemma round_scores: "py_round 85 1 = 85" "py_round (2721 / 32) 1 = 85"
  by (simp_all add: py_round_def round_half_even_def round_f64_numeral)

lemma cx_means:
  "exact_mean (map (\<lambda>(y, x). cell cx_scores y x) (map (Pair 0) [0..<21])) = 85"
  "exact_mean (map (\<lambda>(y, x). cell cx_scores y x) (map (Pair 2) [0..<32])) = 2721 / 32"
  by code_simp+

lemma cx_lengths:
  "length (map (Pair (0::nat)) [0..<21]) = 21" "length (map (Pair (2::nat)) [0..<32]) = 32"
  by simp_all

lemma cx_np_mean: "np_mean cx_libs = exact_mean"
  by (simp add: cx_libs_def)

lemma cx_spot_1:
  "make_spot cx_libs i (map (Pair 0) [0..<21], 10, 0) cx_scores (0, 0, 32, 4) 4 32
     = Inr \<lparr>spot_id = i, latitude = Fin 4, longitude = Fin 10, priority_score = 85,
             area_m2 = Fin (4278419646001971 / 2 ^ 49), area_pixels = 21\<rparr>"
proof -
  have geo: "pixel_to_latlon (PyFloat (Fin 10)) (PyFloat (Fin 0)) 0 4 0 32 4 32
      = Inr (Fin 4, Fin 10)"
    using fl_dyadics
    by (simp add: pixel_to_latlon_def truediv_def float_of_nat_def float_truediv_def)
  show ?thesis
    unfolding make_spot_def Let_def prod.case geo sum.case cx_lengths pixel_area area_21
      cx_np_mean cx_means round_float.simps round_scores round_coords round_area_21
    by (rule refl)
qed

lemma cx_spot_2:
  "make_spot cx_libs i (map (Pair 2) [0..<32], 31 / 2, 2) cx_scores (0, 0, 32, 4) 4 32
     = Inr \<lparr>spot_id = i, latitude = Fin 2, longitude = Fin (31 / 2), priority_score = 85,
             area_m2 = Fin (23 / 2), area_pixels = 32\<rparr>"
proof -
  have geo: "pixel_to_latlon (PyFloat (Fin (31 / 2))) (PyFloat (Fin 2)) 0 4 0 32 4 32
      = Inr (Fin 2, Fin (31 / 2))"
    using fl_dyadics
    by (simp add: pixel_to_latlon_def truediv_def float_of_nat_def float_truediv_def)
  show ?thesis
    unfolding make_spot_def Let_def prod.case geo sum.case cx_lengths pixel_area area_32
      cx_np_mean cx_means round_float.simps round_scores round_coords round_area_32
    by (rule refl)
qed

lemma cx_run:
  "extract_critical_spots cx_libs cx_mask cx_scores (0, 0, 32, 4) 4 32 = Inr cx_spots"
proof -
  have any: "np_any cx_mask" by code_simp
  have cc: "connectedComponentsWithStats cx_libs cx_mask =
      [(map (Pair 0) [0..<21], 10, 0), (map (Pair 2) [0..<32], 31 / 2, 2)]"
    by (simp add: cx_libs_def)
  have two: "Suc (Suc 0) = 2" by simp
  have "collect_spots cx_libs 1 (connectedComponentsWithStats cx_libs cx_mask) cx_scores
      (0, 0, 32, 4) 4 32 [] = Inr cx_spots"
    unfolding cc collect_spots.simps fst_conv cx_lengths
    by (simp add: cx_spot_1 cx_spot_2 cx_spots_def del: upt_Suc)
  then show ?thesis
    using any by (simp add: extract_critical_spots_def cx_spots_def)
qed

lemma cx_contract: "labels_in_mask cx_libs cx_mask"
  by (simp add: labels_in_mask_def cx_libs_def cx_mask_def)

theorem critical_spots_reported_sorted_witness:
  "labels_in_mask cx_libs cx_mask \<and>
   extract_critical_spots cx_libs cx_mask cx_scores (0, 0, 32, 4) 4 32 = Inr cx_spots \<and>
   sorted_wrt (\<lambda>s t. priority_score s = priority_score t \<longrightarrow> spot_id s < spot_id t) cx_spots"
proof -
  note t = critical_spots_reported_sorted [OF cx_contract cx_run]
  have "sorted_wrt (\<lambda>s t. priority_score s = priority_score t \<longrightarrow> spot_id s < spot_id t) cx_spots"
    using t by (elim conjE) assumption
  then show ?thesis
    using cx_contract cx_run by (intro conjI)
qed

text \<open>
  The claim as the specification words it fails on the scene above: the area reported for
  21 pixels is the double 7.6 and not 21 * 0.36 = 7.56, and the spot of the component with
  the smaller mean score (85) is listed before the one with the larger mean (85.03125),
  since both means round to 85.0.
\<close>

theorem spots_not_exact_area_nor_mean_order:
  "extract_critical_spots cx_libs cx_mask cx_scores (0, 0, 32, 4) 4 32 = Inr cx_spots \<and>
   map spot_id cx_spots = [1, 2] \<and>
   area_m2 (cx_spots ! 0) = Fin (4278419646001971 / 2 ^ 49) \<and>
   (4278419646001971 / 2 ^ 49 :: real) \<noteq> real (area_pixels (cx_spots ! 0)) * (36 / 100) \<and>
   np_mean cx_libs (map (\<lambda>(y, x). cell cx_scores y x) (labelled_components cx_libs cx_mask ! 0))
     = 85 \<and>
   np_mean cx_libs (map (\<lambda>(y, x). cell cx_scores y x) (labelled_components cx_libs cx_mask ! 1))
     = 2721 / 32"
proof -
  have "np_mean cx_libs (map (\<lambda>(y, x). cell cx_scores y x)
      (labelled_components cx_libs cx_mask ! 0)) = 85"
    using cx_means(1) by (simp add: cx_libs_def labelled_components_def)
  moreover have "np_mean cx_libs (map (\<lambda>(y, x). cell cx_scores y x)
      (labelled_components cx_libs cx_mask ! 1)) = 2721 / 32"
    using cx_means(2) by (simp add: cx_libs_def labelled_components_def)
  moreover have "map spot_id cx_spots = [1, 2]"
    "area_m2 (cx_spots ! 0) = Fin (4278419646001971 / 2 ^ 49)"
    "(4278419646001971 / 2 ^ 49 :: real) \<noteq> real (area_pixels (cx_spots ! 0)) * (36 / 100)"
    by (simp_all add: cx_spots_def)
  ultimately show ?thesis
    using cx_run by (intro conjI)
qed

section \<open>When the score computation returns\<close>

text \<open>
  \<open>calculate_amenity_priority\<close>, and with it \<open>calculate\<close>, does not return for every
  input: an amenity that projects more than the kernel radius above the image makes the
  two slices of the in-place addition incompatible.
\<close>

lemma amenity_outside_raises:
  "calculate_amenity_priority [Point (1 / 2) 2] (0, 0, 1, 1) (1280, 1280) SCORE_AMENITY
     = Inl ValueError"
proof -
  have proj: "latlon_to_pixel 2 (1 / 2) 0 1 0 1 1280 1280 = Inr (640, - 1280)"
    by (rule project_outside)
  have "apply_kernel [(640, - 1280)] (np_full 1280 1280 0) = Inl ValueError"
    by (simp add: iadd_slice_def py_slice_def slice_index_def radius_px_eq kernel_shape
        np_full_def Let_def)
  then show ?thesis
    by (simp add: calculate_amenity_priority_def proj del: apply_kernel.simps)
qed

text \<open>
  It returns whenever the bounding box is in the analysed range, the image is not empty,
  its sides are below \<open>2^53\<close> and the amenity points lie inside the bounding box.
\<close>

lemma apply_kernel_returns:
  assumes "\<forall>(px, py) \<in> set pxs.
             - radius_px - 1 \<le> px \<and> px \<le> int (ncols d) + radius_px \<and>
             - radius_px - 1 \<le> py \<and> py \<le> int (nrows d) + radius_px"
  shows "\<exists>d'. apply_kernel pxs d = Inr d'"
  using assms
proof (induction pxs arbitrary: d)
  case Nil
  show ?case by simp
next
  case (Cons p pxs)
  obtain px py where p: "p = (px, py)" by (cases p)
  have rng: "- radius_px - 1 \<le> px" "px \<le> int (ncols d) + radius_px"
    "- radius_px - 1 \<le> py" "py \<le> int (nrows d) + radius_px"
    using Cons.prems by (simp_all add: p)
  define ys where "ys = max 0 (py - radius_px)"
  define ye where "ye = min (int (nrows d)) (py + radius_px + 1)"
  define xs where "xs = max 0 (px - radius_px)"
  define xe where "xe = min (int (ncols d)) (px + radius_px + 1)"
  define kys where "kys = radius_px - (py - ys)"
  define kye where "kye = radius_px + (ye - py)"
  define kxs where "kxs = radius_px - (px - xs)"
  define kxe where "kxe = radius_px + (xe - px)"
  have "\<exists>a'. iadd_slice d (ys, ye) (xs, xe) kernel (kys, kye) (kxs, kxe) = Inr a' \<and>
           nrows a' = nrows d \<and> ncols a' = ncols d \<and>
           (\<forall>y x. cell a' y x =
              (if ys \<le> int y \<and> int y < ye \<and> xs \<le> int x \<and> int x < xe
               then cell d y x + cell kernel (nat (kys + (int y - ys))) (nat (kxs + (int x - xs)))
               else cell d y x))"
    using rng
    by (intro iadd_slice_proper)
       (simp_all add: kernel_shape ys_def ye_def xs_def xe_def kys_def kye_def kxs_def kxe_def
          radius_px_eq)
  then obtain a' where run: "iadd_slice d (ys, ye) (xs, xe) kernel (kys, kye) (kxs, kxe) = Inr a'"
    and shape: "nrows a' = nrows d" "ncols a' = ncols d"
    by blast
  have "\<forall>(px, py) \<in> set pxs.
             - radius_px - 1 \<le> px \<and> px \<le> int (ncols a') + radius_px \<and>
             - radius_px - 1 \<le> py \<and> py \<le> int (nrows a') + radius_px"
    using Cons.prems by (simp add: shape)
  from Cons.IH [OF this] obtain d' where "apply_kernel pxs a' = Inr d'" by blast
  then show ?case
    using run
    by (simp add: p Let_def ys_def ye_def xs_def xe_def kys_def kye_def kxs_def kxe_def)
qed

lemma py_int_range:
  assumes "0 \<le> v" and "v \<le> real n"
  shows "0 \<le> py_int v \<and> py_int v \<le> int n"
  using assms by (simp add: py_int_def floor_le_iff le_floor_iff)

lemma amenity_pixels_in_bounds:
  assumes "geo_range min_lon max_lon" and "geo_range min_lat max_lat"
    and "w < 2 ^ 53" and "h < 2 ^ 53"
    and "list_all (in_bounds (min_lon, min_lat, max_lon, max_lat)) gs"
  shows "\<exists>pxs. amenity_pixels gs (min_lon, min_lat, max_lon, max_lat) h w = Inr pxs \<and>
           (\<forall>(px, py) \<in> set pxs. 0 \<le> px \<and> px \<le> int w \<and> 0 \<le> py \<and> py \<le> int h)"
  using assms(5)
proof (induction gs)
  case Nil
  show ?case by simp
next
  case (Cons g gs)
  then obtain pxs where pxs: "amenity_pixels gs (min_lon, min_lat, max_lon, max_lat) h w = Inr pxs"
    "\<forall>(px, py) \<in> set pxs. 0 \<le> px \<and> px \<le> int w \<and> 0 \<le> py \<and> py \<le> int h"
    by auto
  show ?case
  proof (cases g)
    case (Point x y)
    then have xy: "min_lon \<le> x" "x \<le> max_lon" "min_lat \<le> y" "y \<le> max_lat"
      using Cons.prems by (simp_all add: in_bounds_def)
    note rx = geo_rangeD [OF assms(1)] and ry = geo_rangeD [OF assms(2)]
    have small: "(1::real) / 2 ^ 900 \<le> 1 / 2 ^ 400" by simp
    have Dx: "1 / 2 ^ 900 \<le> max_lon - min_lon" using rx(1) small by linarith
    have Dy: "1 / 2 ^ 900 \<le> max_lat - min_lat" using ry(1) small by linarith
    have ax: "\<bar>x\<bar> \<le> 2 ^ 400" using xy(1,2) rx(3,4) by linarith
    have ay: "\<bar>y\<bar> \<le> 2 ^ 400" using xy(3,4) ry(3,4) by linarith
    define vx where "vx = round_f64 (round_f64 (round_f64 (x - min_lon) /
        round_f64 (max_lon - min_lon)) * real w)"
    define vy where "vy = round_f64 (round_f64 (round_f64 (max_lat - y) /
        round_f64 (max_lat - min_lat)) * real h)"
    have run: "latlon_to_pixel y x min_lat max_lat min_lon max_lon h w =
            Inr (py_int vx, py_int vy)"
      unfolding vx_def vy_def
      using assms(1,2) ax ay assms(3,4) by (rule latlon_to_pixel_computed)
    have dx: "0 \<le> x - min_lon" "x - min_lon \<le> max_lon - min_lon" using xy by simp_all
    have dy: "0 \<le> max_lat - y" "max_lat - y \<le> max_lat - min_lat" using xy by simp_all
    have vx: "0 \<le> vx" "vx \<le> real w"
      unfolding vx_def using forward_range(3,4) [OF Dx dx assms(3)] by simp_all
    have vy: "0 \<le> vy" "vy \<le> real h"
      unfolding vy_def using forward_range(3,4) [OF Dy dy assms(4)] by simp_all
    show ?thesis
      using pxs py_int_range [OF vx] py_int_range [OF vy]
      by (simp add: Point run)
  qed (use pxs in simp_all)
qed

lemma np_max_returns:
  assumes "0 < nrows a" and "0 < ncols a"
  shows "\<exists>m. np_max a = Inr m"
proof -
  have "(0, 0) \<in> set (pixels (nrows a) (ncols a))"
    using assms by (simp add: set_pixels)
  then have "pixels (nrows a) (ncols a) \<noteq> []" by auto
  then show ?thesis by (simp add: np_max_def Let_def)
qed

lemma calculate_amenity_returns:
  assumes "geo_range min_lon max_lon" and "geo_range min_lat max_lat"
    and "0 < w" and "w < 2 ^ 53" and "0 < h" and "h < 2 ^ 53"
    and "list_all (in_bounds (min_lon, min_lat, max_lon, max_lat)) gs"
  shows "\<exists>s. calculate_amenity_priority gs (min_lon, min_lat, max_lon, max_lat) (w, h) mp = Inr s"
proof -
  obtain pxs where pxs: "amenity_pixels gs (min_lon, min_lat, max_lon, max_lat) h w = Inr pxs"
    and inside: "\<forall>(px, py) \<in> set pxs. 0 \<le> px \<and> px \<le> int w \<and> 0 \<le> py \<and> py \<le> int h"
    using amenity_pixels_in_bounds [OF assms(1,2,4,6,7)] by blast
  have "\<forall>(px, py) \<in> set pxs.
             - radius_px - 1 \<le> px \<and> px \<le> int (ncols (np_full h w (0::real))) + radius_px \<and>
             - radius_px - 1 \<le> py \<and> py \<le> int (nrows (np_full h w (0::real))) + radius_px"
    using inside by (auto simp: np_full_def radius_px_eq)
  from apply_kernel_returns [OF this] obtain d where d: "apply_kernel pxs (np_full h w 0) = Inr d"
    by blast
  have "nrows d = h" "ncols d = w"
    using apply_kernel_nonneg [OF d] by (simp_all add: np_full_def)
  then obtain m where m: "np_max d = Inr m"
    using np_max_returns [of d] assms(3,5) by auto
  show ?thesis
    by (simp add: calculate_amenity_priority_def pxs d m Let_def)
qed

lemma calculate_returns_in_bounds:
  assumes "geo_bounds inp = (min_lon, min_lat, max_lon, max_lat)"
    and "geo_range min_lon max_lon" and "geo_range min_lat max_lat"
    and "0 < ncols (shadow_intensity inp)" and "ncols (shadow_intensity inp) < 2 ^ 53"
    and "0 < nrows (shadow_intensity inp)" and "nrows (shadow_intensity inp) < 2 ^ 53"
    and "list_all (in_bounds (geo_bounds inp)) (amenities_gdf inp)"
  shows "\<exists>res. calculate inp = Inr res"
proof -
  obtain am where "calculate_amenity_priority (amenities_gdf inp) (geo_bounds inp)
       (ncols (shadow_intensity inp), nrows (shadow_intensity inp)) SCORE_AMENITY = Inr am"
    using calculate_amenity_returns [OF assms(2-7), of "amenities_gdf inp" SCORE_AMENITY] assms(1,8)
    by auto
  then show ?thesis by (rule calculate_returns)
qed

end
